theory Spec2Isabelle
  imports Complex_Main "HOL-Library.Word"
begin

unbundle bit_operations_syntax

section \<open>JavaScript numbers and the 32-bit operators\<close>

text \<open>
  The source is TypeScript. Its numbers are modelled as \<open>int\<close> (every number that occurs
  is an integer far below \<open>2^53\<close>), and the conversions that the bitwise operators apply
  are written out: \<open>ToInt32\<close> for the operands and the result of \<open>&\<close>, \<open>|\<close>, \<open>^\<close>,
  \<open><<\<close>, \<open>ToUint32\<close> for \<open>>>>\<close> and for a store into a \<open>Uint32Array\<close>.
\<close>

definition ToUint32 :: "int \<Rightarrow> int" where
  "ToUint32 x = x mod 0x100000000"

definition ToInt32 :: "int \<Rightarrow> int" where
  "ToInt32 x = (let u = x mod 0x100000000 in if u < 0x80000000 then u else u - 0x100000000)"

definition js_and :: "int \<Rightarrow> int \<Rightarrow> int" where
  "js_and a b = ToInt32 (ToInt32 a AND ToInt32 b)"

definition js_or :: "int \<Rightarrow> int \<Rightarrow> int" where
  "js_or a b = ToInt32 (ToInt32 a OR ToInt32 b)"

definition js_xor :: "int \<Rightarrow> int \<Rightarrow> int" where
  "js_xor a b = ToInt32 (ToInt32 a XOR ToInt32 b)"

definition js_shl :: "int \<Rightarrow> nat \<Rightarrow> int" where
  "js_shl a n = ToInt32 (push_bit (n mod 32) (ToInt32 a))"

definition js_ushr :: "int \<Rightarrow> nat \<Rightarrow> int" where
  "js_ushr a n = drop_bit (n mod 32) (ToUint32 a)"

text \<open>\<open>Math.imul\<close>: the low 32 bits of the product, as a signed number.\<close>

definition imul :: "int \<Rightarrow> int \<Rightarrow> int" where
  "imul a b = ToInt32 (ToInt32 a * ToInt32 b)"

text \<open>
  The remainder operator \<open>%\<close> truncates towards zero (the result has the sign of the
  dividend). A zero divisor gives \<open>NaN\<close> in JavaScript; no call below has one.
\<close>

definition js_rem :: "int \<Rightarrow> int \<Rightarrow> int" where
  "js_rem a b = sgn a * (\<bar>a\<bar> mod \<bar>b\<bar>)"

section \<open>Typed arrays\<close>

type_synonym Uint8Array = "8 word list"
type_synonym Uint32Array = "32 word list"

datatype TypedArray = U8 Uint8Array | U32 Uint32Array

definition le_bytes :: "32 word \<Rightarrow> 8 word list" where
  "le_bytes w = [ucast w, ucast (drop_bit 8 w), ucast (drop_bit 16 w), ucast (drop_bit 24 w)]"

text \<open>
  Modelled from the spec: \<open>utils.js\<close> (\<open>u8\<close>, \<open>u32\<close>, \<open>toBytes\<close>, \<open>nextTick\<close>) is not among
  the sources; the spec calls it generic byte normalization. \<open>u8\<close> and \<open>u32\<close> are the
  byte view and the 32-bit-word view of a typed array's buffer: a \<open>Uint32Array\<close> of \<open>n\<close>
  words is \<open>4n\<close> little-endian bytes, and the \<open>Uint32Array\<close> over \<open>k\<close> bytes has
  \<open>\<lfloor>k / 4\<rfloor>\<close> elements, since a \<open>Uint32Array\<close> holds whole words only.
\<close>

definition u8 :: "Uint32Array \<Rightarrow> Uint8Array" where
  "u8 ws = concat (map le_bytes ws)"

fun u32 :: "Uint8Array \<Rightarrow> Uint32Array" where
  "u32 (b0 # b1 # b2 # b3 # bs) =
     (ucast b0 OR push_bit 8 (ucast b1) OR push_bit 16 (ucast b2) OR push_bit 24 (ucast b3))
       # u32 bs"
| "u32 bs = []"

definition u8_view :: "TypedArray \<Rightarrow> Uint8Array" where
  "u8_view a = (case a of U8 bs \<Rightarrow> bs | U32 ws \<Rightarrow> u8 ws)"

text \<open>
  \<open>target.set(src, offset)\<close> copies the elements of \<open>src\<close> into \<open>target\<close> from \<open>offset\<close> on.
  (It raises \<open>RangeError\<close> when \<open>src\<close> does not fit; every call below fits.)
\<close>

definition set_at :: "'a list \<Rightarrow> 'a list \<Rightarrow> nat \<Rightarrow> 'a list" where
  "set_at target src offset = take offset target @ src @ drop (offset + length src) target"

definition set_typed :: "Uint32Array \<Rightarrow> TypedArray \<Rightarrow> nat \<Rightarrow> Uint32Array" where
  "set_typed target src offset =
     set_at target (case src of U32 ws \<Rightarrow> ws | U8 bs \<Rightarrow> map ucast bs) offset"

definition fill0 :: "'a::zero list \<Rightarrow> 'a list" where
  "fill0 xs = map (\<lambda>_. 0) xs"

section \<open>BLAKE2b\<close>

text \<open>
  Modelled from the spec: \<open>blake2b.js\<close> is not among the sources. The spec consumes
  BLAKE2b as an incremental hasher with configurable digest length at most 64. The digest
  itself is a parameter \<open>hb\<close> of the model: \<open>hb n msg i\<close> is byte \<open>i\<close> of the \<open>n\<close>-byte digest
  of \<open>msg\<close>. Only the digest length is fixed; every theorem holds for every \<open>hb\<close>.
\<close>

type_synonym hash = "nat \<Rightarrow> Uint8Array \<Rightarrow> nat \<Rightarrow> 8 word"

definition blake2b :: "hash \<Rightarrow> nat \<Rightarrow> Uint8Array \<Rightarrow> Uint8Array" where
  "blake2b hb dkLen msg = map (hb dkLen msg) [0..<dkLen]"

text \<open>A fixed digest function, for closed instances of the theorems only.\<close>

definition zero_hash :: hash where
  "zero_hash dkLen msg i = 0"

section \<open>64-bit arithmetic on (high, low) halves\<close>

text \<open>\<open>mul\<close>, \<open>mul2\<close> and \<open>blamka\<close> return the object \<open>{h, l}\<close>, here the pair \<open>(h, l)\<close>.\<close>

definition mul :: "int \<Rightarrow> int \<Rightarrow> int \<times> int" where
  "mul a b =
    (let aL = js_and a 0xffff;
         aH = js_ushr a 16;
         bL = js_and b 0xffff;
         bH = js_ushr b 16;
         ll = imul aL bL;
         hl = imul aH bL;
         lh = imul aL bH;
         hh = imul aH bH;
         carry = js_ushr ll 16 + js_and hl 0xffff + lh;
         high = js_or (hh + js_ushr hl 16 + js_ushr carry 16) 0;
         low = js_or (js_shl carry 16) (js_and ll 0xffff)
     in (high, low))"

definition mul2 :: "int \<Rightarrow> int \<Rightarrow> int \<times> int" where
  "mul2 a b =
    (let (h, l) = mul a b
     in (js_and (js_or (js_shl h 1) (js_ushr l 31)) 0xffffffff,
         js_and (js_shl l 1) 0xffffffff))"

text \<open>
  Modelled from the spec: \<open>_u64.js\<close> is not among the sources. The spec (4.1) requires
  the addition of three 64-bit operands held as (high, low) halves, and right rotations.
  \<open>add3L\<close> is the sum of the three low halves, not reduced; \<open>add3H\<close> adds the three high
  halves and the carry out of that sum, reduced to 32 bits (\<open>sha512.ts\<close> uses the pair the
  same way: \<open>Ah = add3H(All, \<dots>)\<close>, \<open>Al = All | 0\<close>). \<open>rotr32\<close>, \<open>rotrS\<close> and \<open>rotrB\<close>
  rotate right by 32, by less than 32 and by more than 32 bits.
\<close>

definition add3L :: "int \<Rightarrow> int \<Rightarrow> int \<Rightarrow> int" where
  "add3L Al Bl Cl = js_ushr Al 0 + js_ushr Bl 0 + js_ushr Cl 0"

definition add3H :: "int \<Rightarrow> int \<Rightarrow> int \<Rightarrow> int \<Rightarrow> int" where
  "add3H low Ah Bh Ch = js_or (Ah + Bh + Ch + js_or (low div 0x100000000) 0) 0"

definition rotr32H :: "int \<Rightarrow> int \<Rightarrow> int" where
  "rotr32H h l = l"

definition rotr32L :: "int \<Rightarrow> int \<Rightarrow> int" where
  "rotr32L h l = h"

definition rotrSH :: "int \<Rightarrow> int \<Rightarrow> nat \<Rightarrow> int" where
  "rotrSH h l s = js_or (js_ushr h s) (js_shl l (32 - s))"

definition rotrSL :: "int \<Rightarrow> int \<Rightarrow> nat \<Rightarrow> int" where
  "rotrSL h l s = js_or (js_shl h (32 - s)) (js_ushr l s)"

definition rotrBH :: "int \<Rightarrow> int \<Rightarrow> nat \<Rightarrow> int" where
  "rotrBH h l s = js_or (js_shl h (64 - s)) (js_ushr l (s - 32))"

definition rotrBL :: "int \<Rightarrow> int \<Rightarrow> nat \<Rightarrow> int" where
  "rotrBL h l s = js_or (js_ushr h (s - 32)) (js_shl l (64 - s))"

definition blamka :: "int \<Rightarrow> int \<Rightarrow> int \<Rightarrow> int \<Rightarrow> int \<times> int" where
  "blamka Ah Al Bh Bl =
    (let (Ch, Cl) = mul2 Al Bl;
         Rll = add3L Al Bl Cl
     in (add3H Rll Ah Bh Ch, js_or Rll 0))"

section \<open>The block function\<close>

text \<open>
  \<open>A2_BUF\<close> is the module's scratch block of 256 words. \<open>G\<close> and \<open>P\<close> work on it in
  place; here they take it and return it. A load from a \<open>Uint32Array\<close> is \<open>uint\<close>, a store
  is \<open>word_of_int\<close>.
\<close>

definition G :: "nat \<Rightarrow> nat \<Rightarrow> nat \<Rightarrow> nat \<Rightarrow> Uint32Array \<Rightarrow> Uint32Array" where
  "G a b c d buf =
    (let Al = uint (buf ! (2 * a)); Ah = uint (buf ! (2 * a + 1));
         Bl = uint (buf ! (2 * b)); Bh = uint (buf ! (2 * b + 1));
         Cl = uint (buf ! (2 * c)); Ch = uint (buf ! (2 * c + 1));
         Dl = uint (buf ! (2 * d)); Dh = uint (buf ! (2 * d + 1));
         (Ah, Al) = blamka Ah Al Bh Bl;
         (Dh, Dl) = (js_xor Dh Ah, js_xor Dl Al);
         (Dh, Dl) = (rotr32H Dh Dl, rotr32L Dh Dl);
         (Ch, Cl) = blamka Ch Cl Dh Dl;
         (Bh, Bl) = (js_xor Bh Ch, js_xor Bl Cl);
         (Bh, Bl) = (rotrSH Bh Bl 24, rotrSL Bh Bl 24);
         (Ah, Al) = blamka Ah Al Bh Bl;
         (Dh, Dl) = (js_xor Dh Ah, js_xor Dl Al);
         (Dh, Dl) = (rotrSH Dh Dl 16, rotrSL Dh Dl 16);
         (Ch, Cl) = blamka Ch Cl Dh Dl;
         (Bh, Bl) = (js_xor Bh Ch, js_xor Bl Cl);
         (Bh, Bl) = (rotrBH Bh Bl 63, rotrBL Bh Bl 63)
     in buf[2 * a := word_of_int Al, 2 * a + 1 := word_of_int Ah,
            2 * b := word_of_int Bl, 2 * b + 1 := word_of_int Bh,
            2 * c := word_of_int Cl, 2 * c + 1 := word_of_int Ch,
            2 * d := word_of_int Dl, 2 * d + 1 := word_of_int Dh])"

definition P :: "nat \<Rightarrow> nat \<Rightarrow> nat \<Rightarrow> nat \<Rightarrow> nat \<Rightarrow> nat \<Rightarrow> nat \<Rightarrow> nat \<Rightarrow>
    nat \<Rightarrow> nat \<Rightarrow> nat \<Rightarrow> nat \<Rightarrow> nat \<Rightarrow> nat \<Rightarrow> nat \<Rightarrow> nat \<Rightarrow> Uint32Array \<Rightarrow> Uint32Array" where
  "P v00 v01 v02 v03 v04 v05 v06 v07 v08 v09 v10 v11 v12 v13 v14 v15 buf =
    (let buf = G v00 v04 v08 v12 buf;
         buf = G v01 v05 v09 v13 buf;
         buf = G v02 v06 v10 v14 buf;
         buf = G v03 v07 v11 v15 buf;
         buf = G v00 v05 v10 v15 buf;
         buf = G v01 v06 v11 v12 buf;
         buf = G v02 v07 v08 v13 buf;
         buf = G v03 v04 v09 v14 buf
     in buf)"

text \<open>
  \<open>block(x, xPos, yPos, outPos, needXor)\<close> changes the array \<open>x\<close> and the scratch block; it
  returns both. The loops run over \<open>i = 0, 16, \<dots>, 112\<close> and \<open>i = 0, 2, \<dots>, 14\<close>. The
  element-wise \<open>^\<close> of two \<open>Uint32Array\<close> elements, stored into a \<open>Uint32Array\<close>, is the
  exclusive or of the two words.
\<close>

definition block ::
  "Uint32Array \<Rightarrow> nat \<Rightarrow> nat \<Rightarrow> nat \<Rightarrow> bool \<Rightarrow> Uint32Array \<Rightarrow> Uint32Array \<times> Uint32Array" where
  "block x xPos yPos outPos needXor buf =
    (let buf = fold (\<lambda>i b. b[i := x ! (xPos + i) XOR x ! (yPos + i)]) [0..<256] buf;
         buf = fold (\<lambda>i. P i (i + 1) (i + 2) (i + 3) (i + 4) (i + 5) (i + 6) (i + 7)
                        (i + 8) (i + 9) (i + 10) (i + 11) (i + 12) (i + 13) (i + 14) (i + 15))
                 (map (\<lambda>k. 16 * k) [0..<8]) buf;
         buf = fold (\<lambda>i. P i (i + 1) (i + 16) (i + 17) (i + 32) (i + 33) (i + 48) (i + 49)
                        (i + 64) (i + 65) (i + 80) (i + 81) (i + 96) (i + 97) (i + 112) (i + 113))
                 (map (\<lambda>k. 2 * k) [0..<8]) buf;
         x = (if needXor
              then fold (\<lambda>i y. y[outPos + i :=
                      y ! (outPos + i) XOR (buf ! i XOR y ! (xPos + i) XOR y ! (yPos + i))])
                     [0..<256] x
              else fold (\<lambda>i y. y[outPos + i := buf ! i XOR y ! (xPos + i) XOR y ! (yPos + i)])
                     [0..<256] x)
     in (x, fill0 buf))"

section \<open>The variable-length hash\<close>

text \<open>
  The loop \<open>for (; dkLen - pos > 64; pos += 32)\<close> of \<open>Hp\<close>, on the triple \<open>(out, V, pos)\<close>.
\<close>

function Hp_loop :: "hash \<Rightarrow> nat \<Rightarrow> Uint8Array \<times> Uint8Array \<times> nat \<Rightarrow> Uint8Array \<times> Uint8Array \<times> nat" where
  "Hp_loop hb dkLen (out, V, pos) =
     (if int dkLen - int pos > 64
      then (let V = blake2b hb 64 V;
                out = set_at out (take 32 V) pos
            in Hp_loop hb dkLen (out, V, pos + 32))
      else (out, V, pos))"
  by pat_completeness auto
termination
  by (relation "measure (\<lambda>(hb, dkLen, out, V, pos). dkLen - pos)") auto

declare Hp_loop.simps [simp del]

text \<open>
  \<open>Hp\<close> returns a \<open>Uint8Array\<close> on the fast path and \<open>u32(out)\<close>, a \<open>Uint32Array\<close>,
  otherwise.
\<close>

definition Hp :: "hash \<Rightarrow> Uint32Array \<Rightarrow> nat \<Rightarrow> TypedArray" where
  "Hp hb A dkLen =
    (let A8 = u8 A;
         T8 = u8 [of_nat dkLen]
     in if dkLen \<le> 64 then U8 (blake2b hb dkLen (T8 @ A8))
        else (let out = replicate dkLen 0;
                  V = blake2b hb 64 (T8 @ A8);
                  out = set_at out (take 32 V) 0;
                  (out, V, pos) = Hp_loop hb dkLen (out, V, 32);
                  out = set_at out (blake2b hb (dkLen - pos) V) pos
              in U32 (u32 out)))"

section \<open>Indexing\<close>

definition ARGON2_SYNC_POINTS :: int where
  "ARGON2_SYNC_POINTS = 4"

definition indexAlpha :: "int \<Rightarrow> int \<Rightarrow> int \<Rightarrow> int \<Rightarrow> int \<Rightarrow> int \<Rightarrow> bool \<Rightarrow> int" where
  "indexAlpha r s laneLen segmentLen index randL sameLane =
    (let area =
           (if r = 0
            then (if s = 0 then index - 1
                  else if sameLane then s * segmentLen + index - 1
                  else s * segmentLen + (if index = 0 then - 1 else 0))
            else if sameLane then laneLen - segmentLen + index - 1
            else laneLen - segmentLen + (if index = 0 then - 1 else 0));
         startPos = (if r \<noteq> 0 \<and> s \<noteq> ARGON2_SYNC_POINTS - 1 then (s + 1) * segmentLen else 0);
         rel = area - 1 - fst (mul area (fst (mul randL randL)))
     in js_rem (startPos + rel) laneLen)"

text \<open>
  The two index computations of \<open>processBlock\<close>: the previous block it uses, and the
  reference block it selects from the pseudo-random pair \<open>(randL, randH)\<close>.
\<close>

definition prevBlock :: "int \<Rightarrow> int \<Rightarrow> int \<Rightarrow> int" where
  "prevBlock offset laneLen prev = (if js_rem offset laneLen \<noteq> 0 then offset - 1 else prev)"

definition refBlock :: "int \<Rightarrow> int \<Rightarrow> int \<Rightarrow> int \<Rightarrow> int \<Rightarrow> int \<Rightarrow> int \<Rightarrow> int \<Rightarrow> int \<Rightarrow> int" where
  "refBlock l r s index laneLen segmentLen lanes randL randH =
    (let refLane = (if r = 0 \<and> s = 0 then l else js_rem randH lanes);
         refPos = indexAlpha r s laneLen segmentLen index randL (refLane = l)
     in laneLen * refLane + refPos)"

section \<open>Options and validation\<close>

text \<open>The variant tags \<open>AT\<close> (the source spells the first one \<open>Argond2d\<close>).\<close>

datatype Types = Argond2d | Argon2i | Argon2id

fun AT :: "Types \<Rightarrow> int" where
  "AT Argond2d = 0"
| "AT Argon2i = 1"
| "AT Argon2id = 2"

text \<open>
  A value given for \<open>onProgress\<close> is a function or it is not; what a function does with the
  fractions it receives is not part of the program, so the calls are recorded instead.
\<close>

datatype js_value = Function | NotAFunction

text \<open>
  \<open>ArgonOpts\<close>: \<open>None\<close> is an option left out (\<open>undefined\<close> or \<open>null\<close>). Byte inputs
  (\<open>Input\<close>) are taken as already normalised to bytes by \<open>toBytes\<close>.
\<close>

record ArgonOpts =
  opt_t :: int
  opt_m :: int
  opt_p :: int
  opt_version :: "int option"
  opt_key :: "Uint8Array option"
  opt_personalization :: "Uint8Array option"
  opt_dkLen :: "int option"
  opt_asyncTick :: "int option"
  opt_maxmem :: "int option"
  opt_onProgress :: "js_value option"

text \<open>The object \<open>merged\<close> of \<open>initOpts\<close>: the options over the defaults.\<close>

record Merged =
  mg_t :: int
  mg_m :: int
  mg_p :: int
  mg_version :: int
  mg_key :: "Uint8Array option"
  mg_personalization :: "Uint8Array option"
  mg_dkLen :: int
  mg_asyncTick :: int
  mg_maxmem :: int
  mg_onProgress :: "js_value option"

text \<open>Each \<open>throw new Error(\<dots>)\<close> of the source is one error value.\<close>

datatype error =
    ErrPassword      \<comment> \<open>password should be less than 4 GB\<close>
  | ErrSalt          \<comment> \<open>salt should be at least 8 bytes and less than 4 GB\<close>
  | ErrType          \<comment> \<open>invalid argon2 type\<close>
  | ErrDkLen         \<comment> \<open>dkLen should be at least 4 bytes\<close>
  | ErrParallelism   \<comment> \<open>p (parallelism) should be at least 1 and less than 2^24\<close>
  | ErrMemRange      \<comment> \<open>m should be 0 <= m < 2^32\<close>
  | ErrIterations    \<comment> \<open>t (iterations) should be at least 1 and less than 2^32\<close>
  | ErrProgressCb    \<comment> \<open>progressCb should be function\<close>
  | ErrMemTooSmall   \<comment> \<open>memory should be at least 8*p bytes\<close>
  | ErrVersion       \<comment> \<open>unknown version\<close>
  | ErrMaxmem        \<comment> \<open>mem should be less than 2**32, got: maxmem=\<dots>, memused=\<dots>\<close>

definition toBytesOptional :: "Uint8Array option \<Rightarrow> Uint8Array" where
  "toBytesOptional buf = (case buf of Some b \<Rightarrow> b | None \<Rightarrow> [])"

definition maxUint32 :: int where
  "maxUint32 = 2 ^ 32"

definition isUint32 :: "int \<Rightarrow> bool" where
  "isUint32 num = (num \<ge> 0 \<and> num < maxUint32)"

definition dflt :: "'a \<Rightarrow> 'a option \<Rightarrow> 'a" where
  "dflt d v = (case v of None \<Rightarrow> d | Some x \<Rightarrow> x)"

definition initOpts :: "ArgonOpts \<Rightarrow> error + Merged" where
  "initOpts opts =
    (let merged = \<lparr> mg_t = opt_t opts, mg_m = opt_m opts, mg_p = opt_p opts,
                     mg_version = dflt 0x13 (opt_version opts),
                     mg_key = opt_key opts,
                     mg_personalization = opt_personalization opts,
                     mg_dkLen = dflt 32 (opt_dkLen opts),
                     mg_asyncTick = dflt 10 (opt_asyncTick opts),
                     mg_maxmem = dflt (2 ^ 32 - 1) (opt_maxmem opts),
                     mg_onProgress = opt_onProgress opts \<rparr>;
         dkLen = mg_dkLen merged; p = mg_p merged; m = mg_m merged; t = mg_t merged;
         version = mg_version merged; onProgress = mg_onProgress merged
     in if \<not> isUint32 dkLen \<or> dkLen < 4 then Inl ErrDkLen
        else if \<not> isUint32 p \<or> p < 1 \<or> p \<ge> 2 ^ 24 then Inl ErrParallelism
        else if \<not> isUint32 m then Inl ErrMemRange
        else if \<not> isUint32 t \<or> t < 1 then Inl ErrIterations
        else if onProgress \<noteq> None \<and> onProgress \<noteq> Some Function then Inl ErrProgressCb
        else if \<not> isUint32 m \<or> m < 8 * p then Inl ErrMemTooSmall
        else if version \<noteq> 0x10 \<and> version \<noteq> 0x13 then Inl ErrVersion
        else Inr merged)"

section \<open>State of a call\<close>

text \<open>
  The buffers a call reads and writes: the module's scratch block \<open>A2_BUF\<close>; \<open>BUF\<close> and
  \<open>H0\<close> of \<open>argon2Init\<close>; the matrix \<open>B\<close>; the \<open>address\<close> triple of \<open>argon2\<close>; \<open>B_final\<close> of
  \<open>argon2Output\<close>.
\<close>

record heap =
  A2_BUF :: Uint32Array
  BUF :: Uint32Array
  H0 :: Uint32Array
  B :: Uint32Array
  address :: Uint32Array
  B_final :: Uint32Array

text \<open>
  The closure \<open>perBlock\<close>: nothing when no callback was given, and otherwise the captured
  \<open>totalBlock\<close> and \<open>callbackPer\<close>. Its variable \<open>blockCnt\<close> and the arguments it has
  passed to \<open>onProgress\<close>, in call order, are the progress state. The quotient
  \<open>blockCnt / totalBlock\<close> is taken exactly.
\<close>

datatype PerBlock = NoCallback | Callback int int

record progress =
  blockCnt :: int
  reported :: "real list"

definition perBlock :: "PerBlock \<Rightarrow> progress \<Rightarrow> progress" where
  "perBlock pb g =
    (case pb of
       NoCallback \<Rightarrow> g
     | Callback totalBlock callbackPer \<Rightarrow>
         (let g = g\<lparr>blockCnt := blockCnt g + 1\<rparr>
          in if js_rem (blockCnt g) callbackPer = 0 \<or> blockCnt g = totalBlock
             then g\<lparr>reported := reported g @ [real_of_int (blockCnt g) / real_of_int totalBlock]\<rparr>
             else g))"

text \<open>The object returned by \<open>argon2Init\<close> (its \<open>B\<close> is in the heap).\<close>

record Init =
  i_type :: Types
  i_mP :: int
  i_p :: int
  i_t :: int
  i_version :: int
  i_laneLen :: int
  i_lanes :: int
  i_segmentLen :: int
  i_dkLen :: int
  i_perBlock :: PerBlock
  i_asyncTick :: int

section \<open>Initialisation\<close>

definition LE32 :: "int \<Rightarrow> Uint8Array" where
  "LE32 item = u8 [word_of_int item]"

text \<open>The bytes fed to the hasher \<open>h\<close> of \<open>argon2Init\<close>, in order.\<close>

definition H0_input ::
  "int \<Rightarrow> int \<Rightarrow> int \<Rightarrow> int \<Rightarrow> int \<Rightarrow> Types \<Rightarrow>
   Uint8Array \<Rightarrow> Uint8Array \<Rightarrow> Uint8Array \<Rightarrow> Uint8Array \<Rightarrow> Uint8Array" where
  "H0_input p dkLen m t version type password salt key personalization =
     concat (map LE32 [p, dkLen, m, t, version, AT type])
     @ concat (map (\<lambda>i. LE32 (int (length i)) @ i) [password, salt, key, personalization])"

text \<open>The loop \<open>for (let l = 0; l < p; l++)\<close> that fills the first two blocks of a lane.\<close>

definition firstBlocks :: "hash \<Rightarrow> int \<Rightarrow> nat \<Rightarrow> Uint32Array \<times> Uint32Array \<Rightarrow> Uint32Array \<times> Uint32Array" where
  "firstBlocks hb laneLen l BH =
    (let (Bm, H) = BH;
         i = 256 * laneLen * int l;
         H = H[17 := of_nat l];
         H = H[16 := 0];
         Bm = set_typed Bm (Hp hb H 1024) (nat i);
         H = H[16 := 1];
         Bm = set_typed Bm (Hp hb H 1024) (nat (i + 256))
     in (Bm, H))"

text \<open>The lines under \<open>// Params\<close>: \<open>mP\<close>, \<open>laneLen\<close> and \<open>segmentLen\<close>.\<close>

definition geometry :: "int \<Rightarrow> int \<Rightarrow> int \<times> int \<times> int" where
  "geometry p m =
    (let mP = 4 * p * (m div (ARGON2_SYNC_POINTS * p));
         laneLen = mP div p;
         segmentLen = laneLen div ARGON2_SYNC_POINTS
     in (mP, laneLen, segmentLen))"

text \<open>The closure \<open>perBlock\<close> that \<open>argon2Init\<close> builds.\<close>

definition perBlock_of :: "js_value option \<Rightarrow> int \<Rightarrow> int \<Rightarrow> int \<Rightarrow> PerBlock" where
  "perBlock_of onProgress t p segmentLen =
    (if onProgress \<noteq> None
     then (let totalBlock = t * ARGON2_SYNC_POINTS * p * segmentLen;
               callbackPer = max (totalBlock div 10000) 1
           in Callback totalBlock callbackPer)
     else NoCallback)"

text \<open>
  \<open>argon2Init\<close> runs on the heap \<open>hp\<close> of its caller. A \<open>throw\<close> leaves with the error and
  the heap as it is at that line: the validation errors with the heap untouched, the
  memory-budget error with \<open>BUF\<close> and \<open>H0\<close> created and written and \<open>B\<close> as it was, since
  \<open>new Uint32Array(memUsed)\<close> stands after that test.
\<close>

definition argon2Init ::
  "hash \<Rightarrow> Uint8Array \<Rightarrow> Uint8Array \<Rightarrow> Types \<Rightarrow> ArgonOpts \<Rightarrow> heap \<Rightarrow>
   (error \<times> heap) + (Init \<times> heap \<times> progress)" where
  "argon2Init hb password salt type opts hp =
    (if \<not> isUint32 (int (length password)) then Inl (ErrPassword, hp)
     else if \<not> isUint32 (int (length salt)) \<or> length salt < 8 then Inl (ErrSalt, hp)
     else if AT type \<notin> {0, 1, 2} then Inl (ErrType, hp)
     else case initOpts opts of
       Inl e \<Rightarrow> Inl (e, hp)
     | Inr merged \<Rightarrow>
        (let p = mg_p merged; dkLen = mg_dkLen merged; m = mg_m merged; t = mg_t merged;
             version = mg_version merged; maxmem = mg_maxmem merged;
             onProgress = mg_onProgress merged; asyncTick = mg_asyncTick merged;
             key = toBytesOptional (mg_key merged);
             personalization = toBytesOptional (mg_personalization merged);
             h = H0_input p dkLen m t version type password salt key personalization;
             BUFa = [word_of_int (int (length personalization))];
             H0a = u32 (blake2b hb 64 h) @ [0, 0];
             hp = hp\<lparr> BUF := BUFa, H0 := H0a \<rparr>;
             lanes = p;
             (mP, laneLen, segmentLen) = geometry p m;
             memUsed = mP * 256
         in if \<not> isUint32 maxmem \<or> memUsed > maxmem then Inl (ErrMaxmem, hp)
            else (let Ba = replicate (nat memUsed) 0;
                      (Ba, H0a) = fold (firstBlocks hb laneLen) [0..<nat p] (Ba, H0a);
                      pb = perBlock_of onProgress t p segmentLen
                  in Inr (\<lparr> i_type = type, i_mP = mP, i_p = p, i_t = t, i_version = version,
                             i_laneLen = laneLen, i_lanes = lanes, i_segmentLen = segmentLen,
                             i_dkLen = dkLen, i_perBlock = pb, i_asyncTick = asyncTick \<rparr>,
                          hp\<lparr> BUF := fill0 BUFa, H0 := fill0 H0a, B := Ba \<rparr>,
                          \<lparr> blockCnt = 0, reported = [] \<rparr>))))"

section \<open>Finalisation\<close>

definition argon2Output :: "hash \<Rightarrow> heap \<Rightarrow> int \<Rightarrow> int \<Rightarrow> int \<Rightarrow> Uint8Array \<times> heap" where
  "argon2Output hb hp p laneLen dkLen =
    (let Bf = fold (\<lambda>l bf. fold (\<lambda>j bf.
                  bf[j := bf ! j XOR B hp ! nat (256 * (laneLen * int l + laneLen - 1) + int j)])
                [0..<256] bf) [0..<nat p] (replicate 256 0);
         res = u8_view (Hp hb Bf (nat dkLen))
     in (res, hp\<lparr> B_final := fill0 Bf \<rparr>))"

section \<open>Filling the matrix\<close>

definition block_B :: "heap \<Rightarrow> int \<Rightarrow> int \<Rightarrow> int \<Rightarrow> bool \<Rightarrow> heap" where
  "block_B hp xPos yPos outPos needXor =
    (let (x, buf) = block (B hp) (nat xPos) (nat yPos) (nat outPos) needXor (A2_BUF hp)
     in hp\<lparr> B := x, A2_BUF := buf \<rparr>)"

definition block_address :: "heap \<Rightarrow> int \<Rightarrow> int \<Rightarrow> int \<Rightarrow> bool \<Rightarrow> heap" where
  "block_address hp xPos yPos outPos needXor =
    (let (x, buf) = block (address hp) (nat xPos) (nat yPos) (nat outPos) needXor (A2_BUF hp)
     in hp\<lparr> address := x, A2_BUF := buf \<rparr>)"

text \<open>\<open>address[i] = v\<close> and \<open>address[i]++\<close>.\<close>

definition address_set :: "nat \<Rightarrow> int \<Rightarrow> heap \<Rightarrow> heap" where
  "address_set i v hp = hp\<lparr> address := (address hp)[i := word_of_int v] \<rparr>"

definition address_incr :: "nat \<Rightarrow> heap \<Rightarrow> heap" where
  "address_incr i hp = address_set i (uint (address hp ! i) + 1) hp"

definition processBlock ::
  "heap \<Rightarrow> nat \<Rightarrow> nat \<Rightarrow> nat \<Rightarrow> nat \<Rightarrow> int \<Rightarrow> int \<Rightarrow> int \<Rightarrow> int \<Rightarrow> int \<Rightarrow> bool \<Rightarrow> bool \<Rightarrow> heap" where
  "processBlock hp l r s index laneLen segmentLen lanes offset prev dataIndependent needXor =
    (let prev = prevBlock offset laneLen prev;
         (hp, randL, randH) =
           (if dataIndependent
            then (let i128 = index mod 128;
                      hp = (if i128 = 0
                            then (let hp = address_incr (256 + 12) hp;
                                      hp = block_address hp 256 (2 * 256) 0 False;
                                      hp = block_address hp 0 (2 * 256) 0 False
                                  in hp)
                            else hp)
                  in (hp, uint (address hp ! (2 * i128)), uint (address hp ! (2 * i128 + 1))))
            else (let T = 256 * prev
                  in (hp, uint (B hp ! nat T), uint (B hp ! nat (T + 1)))));
         refB = refBlock (int l) (int r) (int s) (int index) laneLen segmentLen lanes randL randH
     in block_B hp (256 * prev) (256 * refB) (offset * 256) needXor)"

text \<open>
  The iterations of the innermost loop
  \<open>for (let index = startPos; index < segmentLen; index++, offset++, prev++)\<close>:
  the values of \<open>(index, offset, prev)\<close> at each of them.
\<close>

definition indexLoop :: "nat \<Rightarrow> int \<Rightarrow> int \<Rightarrow> int \<Rightarrow> (nat \<times> int \<times> int) list" where
  "indexLoop startPos segmentLen offset prev =
     map (\<lambda>k. (startPos + k, offset + int k, prev + int k)) [0..<nat segmentLen - startPos]"

text \<open>The iterations of that loop for pass \<open>r\<close>, segment \<open>s\<close> and lane \<open>l\<close>.\<close>

definition laneStart :: "nat \<Rightarrow> nat \<Rightarrow> nat" where
  "laneStart r s = (if r = 0 \<and> s = 0 then 2 else 0)"

definition laneBlocks :: "nat \<Rightarrow> nat \<Rightarrow> nat \<Rightarrow> int \<Rightarrow> int \<Rightarrow> (nat \<times> int \<times> int) list" where
  "laneBlocks r s l laneLen segmentLen =
    (let startPos = laneStart r s;
         offset = int l * laneLen + int s * segmentLen + int startPos;
         prev = (if js_rem offset laneLen \<noteq> 0 then offset - 1 else offset + laneLen - 1)
     in indexLoop startPos segmentLen offset prev)"

definition needXor_of :: "Init \<Rightarrow> nat \<Rightarrow> bool" where
  "needXor_of ini r = (r \<noteq> 0 \<and> i_version ini = 0x13)"

definition dataIndependent_of :: "Init \<Rightarrow> nat \<Rightarrow> nat \<Rightarrow> bool" where
  "dataIndependent_of ini r s =
     (i_type ini = Argon2i \<or> (i_type ini = Argon2id \<and> r = 0 \<and> s < 2))"

text \<open>The part of the lane loop's body before its inner loop.\<close>

definition laneSetup :: "Init \<Rightarrow> nat \<Rightarrow> nat \<Rightarrow> nat \<Rightarrow> heap \<Rightarrow> heap" where
  "laneSetup ini r s l hp =
    (let hp = address_set (256 + 2) (int l) hp;
         hp = address_set (256 + 12) 0 hp
     in if r = 0 \<and> s = 0 \<and> dataIndependent_of ini r s
        then (let hp = address_incr (256 + 12) hp;
                  hp = block_address hp 256 (2 * 256) 0 False;
                  hp = block_address hp 0 (2 * 256) 0 False
              in hp)
        else hp)"

definition blockStep :: "Init \<Rightarrow> nat \<Rightarrow> nat \<Rightarrow> nat \<Rightarrow> nat \<times> int \<times> int \<Rightarrow> heap \<times> progress \<Rightarrow> heap \<times> progress" where
  "blockStep ini r s l iop st =
    (let (index, offset, prev) = iop;
         (hp, g) = st;
         g = perBlock (i_perBlock ini) g;
         hp = processBlock hp l r s index (i_laneLen ini) (i_segmentLen ini) (i_lanes ini)
                offset prev (dataIndependent_of ini r s) (needXor_of ini r)
     in (hp, g))"

definition laneLoop :: "Init \<Rightarrow> nat \<Rightarrow> nat \<Rightarrow> nat \<Rightarrow> heap \<times> progress \<Rightarrow> heap \<times> progress" where
  "laneLoop ini r s l st =
    (let (hp, g) = st;
         hp = laneSetup ini r s l hp
     in fold (blockStep ini r s l) (laneBlocks r s l (i_laneLen ini) (i_segmentLen ini)) (hp, g))"

definition segmentLoop :: "Init \<Rightarrow> nat \<Rightarrow> nat \<Rightarrow> heap \<times> progress \<Rightarrow> heap \<times> progress" where
  "segmentLoop ini r s st =
    (let (hp, g) = st;
         hp = address_set (256 + 4) (int s) hp
     in fold (laneLoop ini r s) [0..<nat (i_p ini)] (hp, g))"

definition passLoop :: "Init \<Rightarrow> nat \<Rightarrow> heap \<times> progress \<Rightarrow> heap \<times> progress" where
  "passLoop ini r st =
    (let (hp, g) = st;
         hp = address_set (256 + 0) (int r) hp
     in fold (segmentLoop ini r) [0..<nat ARGON2_SYNC_POINTS] (hp, g))"

text \<open>The pre-loop setup: \<open>address = new Uint32Array(3 * 256)\<close> and its three stores.\<close>

definition addressInit :: "Init \<Rightarrow> heap \<Rightarrow> heap" where
  "addressInit ini hp =
    (let hp = hp\<lparr> address := replicate (3 * 256) 0 \<rparr>;
         hp = address_set (256 + 6) (i_mP ini) hp;
         hp = address_set (256 + 8) (i_t ini) hp;
         hp = address_set (256 + 10) (AT (i_type ini)) hp
     in hp)"

text \<open>The heap when the module has been loaded: \<open>A2_BUF = new Uint32Array(256)\<close>.\<close>

definition heap0 :: heap where
  "heap0 = \<lparr> A2_BUF = replicate 256 0, BUF = [], H0 = [], B = [], address = [], B_final = [] \<rparr>"

definition argon2 ::
  "hash \<Rightarrow> Types \<Rightarrow> Uint8Array \<Rightarrow> Uint8Array \<Rightarrow> ArgonOpts \<Rightarrow> error + (Uint8Array \<times> heap \<times> progress)" where
  "argon2 hb type password salt opts =
    (case argon2Init hb password salt type opts heap0 of
       Inl (e, hp) \<Rightarrow> Inl e
     | Inr (ini, hp, g) \<Rightarrow>
        (let hp = addressInit ini hp;
             (hp, g) = fold (passLoop ini) [0..<nat (i_t ini)] (hp, g);
             hp = hp\<lparr> address := fill0 (address hp) \<rparr>;
             (res, hp) = argon2Output hb hp (i_p ini) (i_laneLen ini) (i_dkLen ini)
         in Inr (res, hp, g)))"

definition argon2d :: "hash \<Rightarrow> Uint8Array \<Rightarrow> Uint8Array \<Rightarrow> ArgonOpts \<Rightarrow> error + (Uint8Array \<times> heap \<times> progress)" where
  "argon2d hb password salt opts = argon2 hb Argond2d password salt opts"

definition argon2i :: "hash \<Rightarrow> Uint8Array \<Rightarrow> Uint8Array \<Rightarrow> ArgonOpts \<Rightarrow> error + (Uint8Array \<times> heap \<times> progress)" where
  "argon2i hb password salt opts = argon2 hb Argon2i password salt opts"

definition argon2id :: "hash \<Rightarrow> Uint8Array \<Rightarrow> Uint8Array \<Rightarrow> ArgonOpts \<Rightarrow> error + (Uint8Array \<times> heap \<times> progress)" where
  "argon2id hb password salt opts = argon2 hb Argon2id password salt opts"

section \<open>The cooperative entry point\<close>

text \<open>
  \<open>Date.now()\<close> is an input of the program: \<open>now k\<close> is what its \<open>k\<close>-th call returns. The
  clock state holds \<open>ts\<close>, the number of calls of \<open>Date.now()\<close> made so far, and the number
  of times the call has awaited \<open>nextTick()\<close>. Awaiting hands control to the host; the
  buffers of the call are its own, so the heap is the same when it resumes.
\<close>

record clock =
  ts :: int
  reads :: nat
  yields :: nat

definition tick :: "(nat \<Rightarrow> int) \<Rightarrow> int \<Rightarrow> clock \<Rightarrow> clock" where
  "tick now asyncTick c =
    (let diff = now (reads c) - ts c;
         c = c\<lparr> reads := reads c + 1 \<rparr>
     in if \<not> (diff \<ge> 0 \<and> diff < asyncTick)
        then c\<lparr> yields := yields c + 1, ts := ts c + diff \<rparr>
        else c)"

definition blockStepAsync ::
  "(nat \<Rightarrow> int) \<Rightarrow> Init \<Rightarrow> nat \<Rightarrow> nat \<Rightarrow> nat \<Rightarrow> nat \<times> int \<times> int \<Rightarrow>
   (heap \<times> progress) \<times> clock \<Rightarrow> (heap \<times> progress) \<times> clock" where
  "blockStepAsync now ini r s l iop stc =
    (let (index, offset, prev) = iop;
         ((hp, g), c) = stc;
         g = perBlock (i_perBlock ini) g;
         hp = processBlock hp l r s index (i_laneLen ini) (i_segmentLen ini) (i_lanes ini)
                offset prev (dataIndependent_of ini r s) (needXor_of ini r);
         c = tick now (i_asyncTick ini) c
     in ((hp, g), c))"

definition laneLoopAsync ::
  "(nat \<Rightarrow> int) \<Rightarrow> Init \<Rightarrow> nat \<Rightarrow> nat \<Rightarrow> nat \<Rightarrow> (heap \<times> progress) \<times> clock \<Rightarrow> (heap \<times> progress) \<times> clock" where
  "laneLoopAsync now ini r s l stc =
    (let ((hp, g), c) = stc;
         hp = laneSetup ini r s l hp
     in fold (blockStepAsync now ini r s l)
          (laneBlocks r s l (i_laneLen ini) (i_segmentLen ini)) ((hp, g), c))"

definition segmentLoopAsync ::
  "(nat \<Rightarrow> int) \<Rightarrow> Init \<Rightarrow> nat \<Rightarrow> nat \<Rightarrow> (heap \<times> progress) \<times> clock \<Rightarrow> (heap \<times> progress) \<times> clock" where
  "segmentLoopAsync now ini r s stc =
    (let ((hp, g), c) = stc;
         hp = address_set (256 + 4) (int s) hp
     in fold (laneLoopAsync now ini r s) [0..<nat (i_p ini)] ((hp, g), c))"

definition passLoopAsync ::
  "(nat \<Rightarrow> int) \<Rightarrow> Init \<Rightarrow> nat \<Rightarrow> (heap \<times> progress) \<times> clock \<Rightarrow> (heap \<times> progress) \<times> clock" where
  "passLoopAsync now ini r stc =
    (let ((hp, g), c) = stc;
         hp = address_set (256 + 0) (int r) hp
     in fold (segmentLoopAsync now ini r) [0..<nat ARGON2_SYNC_POINTS] ((hp, g), c))"

definition argon2Async ::
  "hash \<Rightarrow> (nat \<Rightarrow> int) \<Rightarrow> Types \<Rightarrow> Uint8Array \<Rightarrow> Uint8Array \<Rightarrow> ArgonOpts \<Rightarrow>
   error + (Uint8Array \<times> heap \<times> progress \<times> clock)" where
  "argon2Async hb now type password salt opts =
    (case argon2Init hb password salt type opts heap0 of
       Inl (e, hp) \<Rightarrow> Inl e
     | Inr (ini, hp, g) \<Rightarrow>
        (let hp = addressInit ini hp;
             c = \<lparr> ts = now 0, reads = 1, yields = 0 \<rparr>;
             ((hp, g), c) = fold (passLoopAsync now ini) [0..<nat (i_t ini)] ((hp, g), c);
             hp = hp\<lparr> address := fill0 (address hp) \<rparr>;
             (res, hp) = argon2Output hb hp (i_p ini) (i_laneLen ini) (i_dkLen ini)
         in Inr (res, hp, g, c)))"

definition argon2dAsync where
  "argon2dAsync hb now password salt opts = argon2Async hb now Argond2d password salt opts"

definition argon2iAsync where
  "argon2iAsync hb now password salt opts = argon2Async hb now Argon2i password salt opts"

definition argon2idAsync where
  "argon2idAsync hb now password salt opts = argon2Async hb now Argon2id password salt opts"

text \<open>What a caller receives: the error, or the bytes.\<close>

definition returned :: "error + (Uint8Array \<times> 'a) \<Rightarrow> error + Uint8Array" where
  "returned res = (case res of Inl e \<Rightarrow> Inl e | Inr (bytes, rest) \<Rightarrow> Inr bytes)"

section \<open>The order in which blocks are produced\<close>

text \<open>
  The blocks produced by the four nested loops of \<open>argon2\<close>, in order: for each the pass,
  segment, lane and index, and the \<open>offset\<close> and \<open>prev\<close> passed to \<open>processBlock\<close>.
\<close>

type_synonym step = "nat \<times> nat \<times> nat \<times> nat \<times> int \<times> int"

definition traversal :: "int \<Rightarrow> int \<Rightarrow> int \<Rightarrow> int \<Rightarrow> step list" where
  "traversal t p laneLen segmentLen =
     concat (map (\<lambda>r.
       concat (map (\<lambda>s.
         concat (map (\<lambda>l.
           map (\<lambda>(index, offset, prev). (r, s, l, index, offset, prev))
             (laneBlocks r s l laneLen segmentLen))
         [0..<nat p]))
       [0..<nat ARGON2_SYNC_POINTS]))
     [0..<nat t])"

definition step_offset :: "step \<Rightarrow> int" where
  "step_offset x = (case x of (r, s, l, index, offset, prev) \<Rightarrow> offset)"

text \<open>The step of that order at pass \<open>r\<close>, segment \<open>s\<close>, lane \<open>l\<close> and \<open>index\<close>.\<close>

definition step_at :: "int \<Rightarrow> int \<Rightarrow> nat \<Rightarrow> nat \<Rightarrow> nat \<Rightarrow> nat \<Rightarrow> step" where
  "step_at laneLen segmentLen r s l index =
    (let offset = int l * laneLen + int s * segmentLen + int (laneStart r s);
         prev = (if js_rem offset laneLen \<noteq> 0 then offset - 1 else offset + laneLen - 1)
     in (r, s, l, index, offset + int (index - laneStart r s), prev + int (index - laneStart r s)))"

text \<open>The blocks written by \<open>argon2Init\<close>: the first two of each lane.\<close>

definition seeded :: "int \<Rightarrow> int \<Rightarrow> int set" where
  "seeded p laneLen = (\<Union>l\<in>{0..<nat p}. {laneLen * int l, laneLen * int l + 1})"

text \<open>
  Where an earlier step \<open>y\<close> lies relative to the step at \<open>(r, s, l, index)\<close>: in an earlier
  segment of the same pass, earlier in the same segment of the same lane, or in a later
  segment of the pass before.
\<close>

definition earlier_kind :: "nat \<Rightarrow> nat \<Rightarrow> nat \<Rightarrow> nat \<Rightarrow> step \<Rightarrow> bool" where
  "earlier_kind r s l index y =
    (case y of (r', s', l', index', offset', prev') \<Rightarrow>
       (r' = r \<and> s' < s) \<or> (r' = r \<and> s' = s \<and> l' = l \<and> index' < index)
       \<or> (r' + 1 = r \<and> s < s'))"

section \<open>Auxiliary notions\<close>

text \<open>The object that \<open>argon2Init\<close> returns for the merged options \<open>mg\<close>.\<close>

definition init_of :: "Types \<Rightarrow> Merged \<Rightarrow> Init" where
  "init_of ty mg =
     (case geometry (mg_p mg) (mg_m mg) of (mP, laneLen, segmentLen) \<Rightarrow>
      \<lparr> i_type = ty, i_mP = mP, i_p = mg_p mg, i_t = mg_t mg, i_version = mg_version mg,
        i_laneLen = laneLen, i_lanes = mg_p mg, i_segmentLen = segmentLen,
        i_dkLen = mg_dkLen mg,
        i_perBlock = perBlock_of (mg_onProgress mg) (mg_t mg) (mg_p mg) segmentLen,
        i_asyncTick = mg_asyncTick mg \<rparr>)"

text \<open>The heap and the progress state after the passes of \<open>argon2\<close>, from those of
  \<open>argon2Init\<close>.\<close>

definition filled :: "Init \<Rightarrow> heap \<Rightarrow> progress \<Rightarrow> heap \<times> progress" where
  "filled ini hp g = fold (passLoop ini) [0..<nat (i_t ini)] (addressInit ini hp, g)"

definition filledAsync :: "(nat \<Rightarrow> int) \<Rightarrow> Init \<Rightarrow> heap \<Rightarrow> progress \<Rightarrow> (heap \<times> progress) \<times> clock" where
  "filledAsync now ini hp g =
     fold (passLoopAsync now ini) [0..<nat (i_t ini)]
       ((addressInit ini hp, g), \<lparr> ts = now 0, reads = 1, yields = 0 \<rparr>)"

text \<open>
  What the passes of \<open>argon2\<close> keep: \<open>H0\<close> and \<open>BUF\<close> as \<open>argon2Init\<close> left them, the
  size of the \<open>address\<close> triple, and a scratch block of zeros between two calls of \<open>block\<close>.
\<close>

definition aux_kept :: "Uint32Array \<Rightarrow> Uint32Array \<Rightarrow> heap \<Rightarrow> bool" where
  "aux_kept h0 buf hp =
     (H0 hp = h0 \<and> BUF hp = buf \<and> length (address hp) = 3 * 256 \<and> A2_BUF hp = replicate 256 0)"

text \<open>The smallest accepted options: \<open>{t: 1, m: 8, p: 1}\<close>; and a salt of 8 bytes.\<close>

definition min_opts :: ArgonOpts where
  "min_opts = \<lparr> opt_t = 1, opt_m = 8, opt_p = 1, opt_version = None, opt_key = None,
                 opt_personalization = None, opt_dkLen = None, opt_asyncTick = None,
                 opt_maxmem = None, opt_onProgress = None \<rparr>"

definition salt8 :: Uint8Array where
  "salt8 = [0, 0, 0, 0, 0, 0, 0, 0]"

lemma ToUint32_take_bit: "ToUint32 x = take_bit 32 x"
  unfolding ToUint32_def take_bit_eq_mod by simp

lemma take_bit_ToInt32: "take_bit 32 (ToInt32 x) = take_bit 32 x"
proof -
  have "(x mod 4294967296 - 4294967296) mod 4294967296 = x mod (4294967296::int)"
    by (simp only: mod_diff_right_eq [symmetric, of _ 4294967296] mod_self diff_zero mod_mod_trivial)
  then have "ToInt32 x mod 4294967296 = x mod 4294967296"
    unfolding ToInt32_def Let_def by (simp only: if_distrib [of "\<lambda>v. v mod 4294967296"] mod_mod_trivial if_cancel)
  then show ?thesis unfolding take_bit_eq_mod by simp
qed

lemma ToUint32_ToInt32: "ToUint32 (ToInt32 x) = ToUint32 x"
  by (simp only: ToUint32_take_bit take_bit_ToInt32)

lemma take_bit_le_ToInt32: "n \<le> 32 \<Longrightarrow> take_bit n (ToInt32 x) = take_bit n x"
proof -
  assume n: "n \<le> 32"
  have "take_bit n (ToInt32 x) = take_bit n (take_bit 32 (ToInt32 x))"
    using n by (simp only: take_bit_take_bit min_absorb1)
  also have "\<dots> = take_bit n (take_bit 32 x)" by (simp only: take_bit_ToInt32)
  also have "\<dots> = take_bit n x" using n by (simp only: take_bit_take_bit min_absorb1)
  finally show ?thesis .
qed

lemma ToInt32_small: "0 \<le> x \<Longrightarrow> x < 0x80000000 \<Longrightarrow> ToInt32 x = x"
proof -
  assume a: "0 \<le> x" "x < 0x80000000"
  then have "x < 0x100000000" by linarith
  with a have "x mod 0x100000000 = x" by (simp only: mod_pos_pos_trivial)
  with a show ?thesis unfolding ToInt32_def Let_def by (simp only: if_True)
qed

lemma ToUint32_js_and: "ToUint32 (js_and a b) = take_bit 32 a AND take_bit 32 b"
  by (simp only: js_and_def ToUint32_take_bit take_bit_ToInt32 take_bit_and)

lemma ToUint32_js_or: "ToUint32 (js_or a b) = take_bit 32 a OR take_bit 32 b"
  by (simp only: js_or_def ToUint32_take_bit take_bit_ToInt32 take_bit_or)

lemma ToUint32_js_xor: "ToUint32 (js_xor a b) = take_bit 32 a XOR take_bit 32 b"
  by (simp only: js_xor_def ToUint32_take_bit take_bit_ToInt32 take_bit_xor)

lemma ToInt32_cong: "x mod 0x100000000 = y mod 0x100000000 \<Longrightarrow> ToInt32 x = ToInt32 y"
  unfolding ToInt32_def by (simp only:)

lemma ToInt32_mod: "ToInt32 x mod 0x100000000 = x mod 0x100000000"
  using take_bit_ToInt32 [of x] unfolding take_bit_eq_mod by simp

lemma ToInt32_idem: "ToInt32 (ToInt32 x) = ToInt32 x"
  by (rule ToInt32_cong) (rule ToInt32_mod)

lemma ToInt32_0: "ToInt32 0 = 0"
  by (rule ToInt32_small) simp_all

lemma js_or_zero: "js_or x 0 = ToInt32 x"
  by (simp only: js_or_def ToInt32_0 or.right_neutral ToInt32_idem)

lemma take_bit_16_bounds: "0 \<le> take_bit 16 (a::int)" "take_bit 16 a < 65536" "take_bit 16 a < 0x80000000"
proof -
  show "0 \<le> take_bit 16 a" by (rule take_bit_nonnegative)
  have "take_bit 16 a < 2 ^ 16" by (rule take_bit_int_less_exp)
  moreover have "(2::int) ^ 16 = 65536" by simp
  ultimately show "take_bit 16 a < 65536" by (simp only:)
  moreover have "(65536::int) < 0x80000000" by simp
  ultimately show "take_bit 16 a < 0x80000000" by (rule less_trans)
qed

lemma js_and_ffff: "js_and a 0xffff = take_bit 16 a"
proof -
  have m: "(65535::int) = mask 16" by (simp add: mask_eq_exp_minus_1)
  have "ToInt32 65535 = 65535" by (rule ToInt32_small) simp_all
  then have "js_and a 0xffff = ToInt32 (take_bit 16 (ToInt32 a))"
    unfolding js_and_def by (simp only: m take_bit_eq_mask)
  also have "take_bit 16 (ToInt32 a) = take_bit 16 a" by (rule take_bit_le_ToInt32) simp
  also have "ToInt32 (take_bit 16 a) = take_bit 16 a"
    by (rule ToInt32_small) (rule take_bit_16_bounds)+
  finally show ?thesis .
qed

lemma ToInt32_ffffffff: "ToInt32 0xffffffff = - 1"
proof -
  have "(0xffffffff::int) mod 0x100000000 = 0xffffffff" by (rule mod_pos_pos_trivial) simp_all
  then show ?thesis unfolding ToInt32_def Let_def by (simp only:) simp
qed

lemma js_and_ffffffff: "js_and a 0xffffffff = ToInt32 a"
  by (simp only: js_and_def ToInt32_ffffffff and.right_neutral ToInt32_idem)

lemma prod_bound:
  fixes K :: int
  assumes "0 \<le> x" "x < K" "0 \<le> y" "y < K"
  shows "0 \<le> x * y" "x * y \<le> K * K - 2 * K + 1"
proof -
  show "0 \<le> x * y" using assms by simp
  have "x * y \<le> (K - 1) * (K - 1)"
    by (rule mult_mono) (use assms in auto)
  also have "\<dots> = K * K - 2 * K + 1" by (simp add: algebra_simps)
  finally show "x * y \<le> K * K - 2 * K + 1" .
qed

lemma div_bound:
  fixes K :: int
  assumes "1 < K" "0 \<le> n" "n \<le> K * K - 2 * K + 1"
  shows "0 \<le> n div K" "n div K \<le> K - 2"
proof -
  show "0 \<le> n div K" using assms by (simp add: pos_imp_zdiv_nonneg_iff)
  show "n div K \<le> K - 2"
  proof (rule ccontr)
    assume "\<not> n div K \<le> K - 2"
    then have "K - 1 \<le> n div K" by simp
    then have "(K - 1) * K \<le> (n div K) * K"
      by (rule mult_right_mono) (use assms in simp)
    moreover have "0 \<le> n mod K" using assms by simp
    moreover have "n = (n div K) * K + n mod K" by simp
    ultimately have "(K - 1) * K \<le> K * K - 2 * K + 1" using assms(3) by linarith
    then have "K * K - K \<le> K * K - 2 * K + 1" by (simp add: algebra_simps)
    with assms show False by simp
  qed
qed

lemma split_product:
  fixes K :: int
  assumes K: "1 < K"
    and a: "0 \<le> aL" "aL < K" "0 \<le> aH" "aH < K"
    and b: "0 \<le> bL" "bL < K" "0 \<le> bH" "bH < K"
  defines "c \<equiv> (aL * bL) div K + (aH * bL) mod K + aL * bH"
  shows "0 \<le> c" "c < K * K"
    and "(aH * K + aL) * (bH * K + bL) =
         (aH * bH + (aH * bL) div K + c div K) * (K * K) + ((c mod K) * K + (aL * bL) mod K)"
    and "0 \<le> (c mod K) * K + (aL * bL) mod K" "(c mod K) * K + (aL * bL) mod K < K * K"
proof -
  have K0: "0 < K" using K by simp
  note ll = prod_bound [OF a(1,2) b(1,2)]
  note lh = prod_bound [OF a(1,2) b(3,4)]
  note lld = div_bound [OF K ll]
  have hlm: "0 \<le> (aH * bL) mod K" "(aH * bL) mod K < K" using K0 by simp_all
  show c0: "0 \<le> c" unfolding c_def using lld(1) hlm(1) lh(1) by linarith
  show "c < K * K" unfolding c_def using lld(2) hlm(2) lh(2) by linarith
  have cm: "0 \<le> c mod K" "c mod K < K" using K0 by simp_all
  have llm: "0 \<le> (aL * bL) mod K" "(aL * bL) mod K < K" using K0 by simp_all
  have "0 \<le> (c mod K) * K" using cm(1) K0 by simp
  then show "0 \<le> (c mod K) * K + (aL * bL) mod K" using llm(1) by linarith
  have "c mod K \<le> K - 1" using cm(2) by simp
  then have "(c mod K) * K \<le> (K - 1) * K" by (rule mult_right_mono) (use K0 in simp)
  then have "(c mod K) * K \<le> K * K - K" by (simp add: algebra_simps)
  then show "(c mod K) * K + (aL * bL) mod K < K * K" using llm(2) by linarith
  define q1 r1 where "q1 = (aL * bL) div K" and "r1 = (aL * bL) mod K"
  define q2 r2 where "q2 = (aH * bL) div K" and "r2 = (aH * bL) mod K"
  define q3 r3 where "q3 = c div K" and "r3 = c mod K"
  have e1: "aL * bL = q1 * K + r1" by (simp add: q1_def r1_def)
  have e2: "aH * bL = q2 * K + r2" by (simp add: q2_def r2_def)
  have e3: "c = q3 * K + r3" by (simp add: q3_def r3_def)
  have c': "c = q1 + r2 + aL * bH" by (simp add: c_def q1_def r2_def)
  have "(aH * K + aL) * (bH * K + bL) = aH * bH * (K * K) + (aH * bL) * K + (aL * bH) * K + aL * bL"
    by (simp add: algebra_simps)
  also have "\<dots> = aH * bH * (K * K) + (q2 * K + r2) * K + (aL * bH) * K + (q1 * K + r1)"
    by (simp only: e1 e2)
  also have "\<dots> = (aH * bH + q2) * (K * K) + (q1 + r2 + aL * bH) * K + r1"
    by (simp add: algebra_simps)
  also have "\<dots> = (aH * bH + q2) * (K * K) + (q3 * K + r3) * K + r1"
    by (simp only: c' [symmetric] e3 [symmetric])
  also have "\<dots> = (aH * bH + q2 + q3) * (K * K) + (r3 * K + r1)"
    by (simp add: algebra_simps)
  finally show "(aH * K + aL) * (bH * K + bL) =
         (aH * bH + (aH * bL) div K + c div K) * (K * K) + ((c mod K) * K + (aL * bL) mod K)"
    by (simp only: q1_def r1_def q2_def r2_def q3_def r3_def)
qed

lemma div_less_int:
  fixes K :: int
  assumes "0 < K" "n < q * K"
  shows "n div K < q"
proof (rule ccontr)
  assume "\<not> n div K < q"
  then have "q \<le> n div K" by simp
  then have "q * K \<le> (n div K) * K"
    by (rule mult_right_mono) (use assms in simp)
  moreover have "0 \<le> n mod K" using assms by simp
  moreover have "n = (n div K) * K + n mod K" by simp
  ultimately show False using assms(2) by linarith
qed

lemma divmod_unique_int:
  fixes M :: int
  assumes "n = q * M + r" "0 \<le> r" "r < M"
  shows "n div M = q" "n mod M = r"
proof -
  have n: "n = M * q + r" using assms(1) by (simp add: mult.commute)
  show "n div M = q" using n assms(2,3) by (rule int_div_pos_eq)
  show "n mod M = r" using n assms(2,3) by (rule int_mod_pos_eq)
qed

lemma js_ushr_16: "js_ushr a 16 = take_bit 32 a div 65536"
  unfolding js_ushr_def ToUint32_take_bit drop_bit_eq_div by simp

lemma take_bit_32_bounds: "0 \<le> take_bit 32 (a::int)" "take_bit 32 a < 4294967296"
proof -
  show "0 \<le> take_bit 32 a" by (rule take_bit_nonnegative)
  have "take_bit 32 a < 2 ^ 32" by (rule take_bit_int_less_exp)
  moreover have "(2::int) ^ 32 = 4294967296" by simp
  ultimately show "take_bit 32 a < 4294967296" by (simp only:)
qed

lemma js_ushr_16_bounds: "0 \<le> js_ushr a 16" "js_ushr a 16 < 65536"
proof -
  have u: "take_bit 32 a < 65536 * 65536" using take_bit_32_bounds(2) [of a] by simp
  show "0 \<le> js_ushr a 16" unfolding js_ushr_16 using take_bit_32_bounds(1) [of a]
    by (simp only: pos_imp_zdiv_nonneg_iff [of 65536 "take_bit 32 a"] zero_less_numeral)
  show "js_ushr a 16 < 65536" unfolding js_ushr_16 
    by (rule div_less_int) (use u in simp_all)
qed

lemma take_bit_32_split: "take_bit 32 a = js_ushr a 16 * 65536 + take_bit 16 (a::int)"
proof -
  have "take_bit 16 a = take_bit 16 (take_bit 32 a)" by simp
  also have "\<dots> = take_bit 32 a mod 65536" unfolding take_bit_eq_mod [of 16] by simp
  finally show ?thesis unfolding js_ushr_16 by simp
qed

lemma imul_small:
  assumes "0 \<le> x" "x < 65536" "0 \<le> y" "y < 65536"
  shows "imul x y = ToInt32 (x * y)"
proof -
  have "ToInt32 x = x" using assms by (intro ToInt32_small) simp_all
  moreover have "ToInt32 y = y" using assms by (intro ToInt32_small) simp_all
  ultimately show ?thesis unfolding imul_def by (simp only:)
qed

lemma prod_16_bounds:
  fixes x y :: int
  assumes "0 \<le> x" "x < 65536" "0 \<le> y" "y < 65536"
  shows "0 \<le> x * y" "x * y < 4294967296" "take_bit 32 (x * y) = x * y"
proof -
  note pb = prod_bound [OF assms]
  show "0 \<le> x * y" by (rule pb)
  show lt: "x * y < 4294967296" using pb(2) by simp
  show "take_bit 32 (x * y) = x * y" using pb(1) lt unfolding take_bit_eq_mod by simp
qed

lemma ToUint32_small: "0 \<le> x \<Longrightarrow> x < 0x100000000 \<Longrightarrow> ToUint32 x = x"
  unfolding ToUint32_def by (rule mod_pos_pos_trivial)

lemma js_ushr_16_small: "0 \<le> x \<Longrightarrow> x < 0x100000000 \<Longrightarrow> js_ushr (ToInt32 x) 16 = x div 65536"
proof -
  assume a: "0 \<le> x" "x < 0x100000000"
  have "take_bit 32 (ToInt32 x) = x"
    using a by (simp only: ToUint32_take_bit [symmetric] ToUint32_ToInt32 ToUint32_small)
  then show ?thesis unfolding js_ushr_16 by (simp only:)
qed

lemma low_word:
  "ToUint32 (js_or (js_shl c 16) (js_and x 0xffff)) = take_bit 16 c * 65536 + take_bit 16 x"
proof -
  have "take_bit 32 (js_shl c 16) = take_bit 32 (push_bit 16 (ToInt32 c))"
    unfolding js_shl_def by (simp only: take_bit_ToInt32) simp
  also have "\<dots> = push_bit 16 (take_bit 16 (ToInt32 c))"
    by (simp add: take_bit_push_bit)
  also have "take_bit 16 (ToInt32 c) = take_bit 16 c" by (rule take_bit_le_ToInt32) simp
  finally have 1: "take_bit 32 (js_shl c 16) = push_bit 16 (take_bit 16 c)" .
  have 2: "take_bit 32 (js_and x 0xffff) = take_bit 16 x"
    by (simp add: js_and_ffff)
  have "ToUint32 (js_or (js_shl c 16) (js_and x 0xffff)) = push_bit 16 (take_bit 16 c) OR take_bit 16 x"
    by (simp only: ToUint32_js_or 1 2)
  also have "\<dots> = concat_bit 16 x (take_bit 16 c)"
    by (simp only: concat_bit_def or.commute)
  also have "\<dots> = take_bit 16 x + push_bit 16 (take_bit 16 c)"
    by (rule concat_bit_eq)
  also have "\<dots> = take_bit 16 c * 65536 + take_bit 16 x"
    by (simp add: push_bit_eq_mult)
  finally show ?thesis .
qed

lemma mul_halves:
  "ToUint32 (fst (mul a b)) = (ToUint32 a * ToUint32 b) div 0x100000000"
  "ToUint32 (snd (mul a b)) = (ToUint32 a * ToUint32 b) mod 0x100000000"
proof -
  define aL aH bL bH where "aL = take_bit 16 a" and "aH = js_ushr a 16"
    and "bL = take_bit 16 b" and "bH = js_ushr b 16"
  define c where "c = (aL * bL) div 65536 + (aH * bL) mod 65536 + aL * bH"
  define hi where "hi = aH * bH + (aH * bL) div 65536 + c div 65536"
  define lo where "lo = (c mod 65536) * 65536 + (aL * bL) mod 65536"
  have bnd: "0 \<le> aL" "aL < 65536" "0 \<le> aH" "aH < 65536"
            "0 \<le> bL" "bL < 65536" "0 \<le> bH" "bH < 65536"
    unfolding aL_def aH_def bL_def bH_def
    by (rule take_bit_16_bounds js_ushr_16_bounds)+
  have aL': "js_and a 0xffff = aL" and bL': "js_and b 0xffff = bL"
    unfolding aL_def bL_def by (rule js_and_ffff)+
  have K: "(1::int) < 65536" by simp
  note sp = split_product [OF K bnd, folded c_def, folded hi_def lo_def]
  have KK: "(65536::int) * 65536 = 4294967296" by simp
  have A: "ToUint32 a = aH * 65536 + aL" and B: "ToUint32 b = bH * 65536 + bL"
    unfolding ToUint32_take_bit aL_def aH_def bL_def bH_def by (rule take_bit_32_split)+
  have prod: "ToUint32 a * ToUint32 b = hi * 4294967296 + lo"
    unfolding A B using sp(3) by (simp only: KK)
  have lo_b: "0 \<le> lo" "lo < 4294967296" using sp(4,5) by (simp_all only: KK)
  note dm = divmod_unique_int [OF prod lo_b]
  have c_b: "0 \<le> c" "c < 4294967296" using sp(1,2) by (simp_all only: KK)
  text \<open>the JavaScript values\<close>
  note ll = prod_16_bounds [OF bnd(1,2) bnd(5,6)]
  note hl = prod_16_bounds [OF bnd(3,4) bnd(5,6)]
  note lh = prod_16_bounds [OF bnd(1,2) bnd(7,8)]
  note hh = prod_16_bounds [OF bnd(3,4) bnd(7,8)]
  define carry where "carry = js_ushr (imul aL bL) 16 + js_and (imul aH bL) 0xffff + imul aL bH"
  have i1: "imul aL bL = ToInt32 (aL * bL)" by (rule imul_small) (rule bnd)+
  have i2: "imul aH bL = ToInt32 (aH * bL)" by (rule imul_small) (rule bnd)+
  have i3: "imul aL bH = ToInt32 (aL * bH)" by (rule imul_small) (rule bnd)+
  have i4: "imul aH bH = ToInt32 (aH * bH)" by (rule imul_small) (rule bnd)+
  have s1: "js_ushr (imul aL bL) 16 = (aL * bL) div 65536"
    unfolding i1 by (rule js_ushr_16_small) (rule ll)+
  have s2: "js_and (imul aH bL) 0xffff = (aH * bL) mod 65536"
    unfolding i2 js_and_ffff by (simp only: take_bit_le_ToInt32 [of 16]) (simp add: take_bit_eq_mod)
  have s3: "js_ushr (imul aH bL) 16 = (aH * bL) div 65536"
    unfolding i2 by (rule js_ushr_16_small) (rule hl)+
  have carry_eq: "carry = (aL * bL) div 65536 + (aH * bL) mod 65536 + ToInt32 (aL * bH)"
    unfolding carry_def s1 s2 i3 ..
  have "carry mod 4294967296 = c mod 4294967296"
    unfolding carry_eq c_def
    by (subst mod_add_right_eq [symmetric]) (simp only: ToInt32_mod mod_add_right_eq)
  also have "\<dots> = c" using c_b by (rule mod_pos_pos_trivial)
  finally have carry_mod: "take_bit 32 carry = c" unfolding take_bit_eq_mod by simp
  have s4: "js_ushr carry 16 = c div 65536" unfolding js_ushr_16 carry_mod ..
  have t16: "take_bit 16 carry = c mod 65536"
  proof -
    have "take_bit 16 carry = take_bit 16 (take_bit 32 carry)" by simp
    then show ?thesis unfolding carry_mod by (simp add: take_bit_eq_mod)
  qed
  have hi_b: "0 \<le> hi" "hi < 4294967296"
  proof -
    have p0: "0 \<le> ToUint32 a * ToUint32 b"
      unfolding ToUint32_take_bit by (rule mult_nonneg_nonneg) (rule take_bit_32_bounds)+
    have "ToUint32 a * ToUint32 b \<le> 4294967295 * 4294967295"
      unfolding ToUint32_take_bit
      by (rule mult_mono) (use take_bit_32_bounds [of a] take_bit_32_bounds [of b] in simp_all)
    then have p1: "ToUint32 a * ToUint32 b < 4294967296 * 4294967296" by simp
    show "0 \<le> hi" using p0 unfolding dm(1) [symmetric]
      by (simp only: pos_imp_zdiv_nonneg_iff [of 4294967296] zero_less_numeral)
    show "hi < 4294967296" unfolding dm(1) [symmetric]
      by (rule div_less_int) (use p1 in simp_all)
  qed
  have high: "fst (mul a b) = ToInt32 (ToInt32 (aH * bH) + (aH * bL) div 65536 + c div 65536)"
    unfolding mul_def Let_def fst_conv js_or_zero aL' bL' aH_def [symmetric] bH_def [symmetric]
    unfolding carry_def [symmetric] s3 s4 i4 ..
  have "ToUint32 (fst (mul a b)) = hi mod 4294967296"
    unfolding high ToUint32_ToInt32 unfolding ToUint32_def hi_def
    by (simp only: add.assoc) (subst mod_add_left_eq [symmetric], simp only: ToInt32_mod mod_add_left_eq)
  also have "\<dots> = hi" using hi_b by (rule mod_pos_pos_trivial)
  finally show "ToUint32 (fst (mul a b)) = (ToUint32 a * ToUint32 b) div 0x100000000"
    unfolding dm(1) .
  have low: "snd (mul a b) = js_or (js_shl carry 16) (js_and (imul aL bL) 0xffff)"
    unfolding mul_def Let_def snd_conv aL' bL' aH_def [symmetric] bH_def [symmetric]
    unfolding carry_def [symmetric] ..
  have "ToUint32 (snd (mul a b)) = lo"
    unfolding low low_word t16 lo_def i1
    by (simp only: take_bit_le_ToInt32 [of 16]) (simp add: take_bit_eq_mod)
  then show "ToUint32 (snd (mul a b)) = (ToUint32 a * ToUint32 b) mod 0x100000000"
    unfolding dm(2) .
qed

lemma mod_square_split:
  fixes M :: int
  assumes "0 < M" "0 \<le> r" "r < M"
  shows "(q * M + r) mod (M * M) = (q mod M) * M + r"
proof -
  have "q * M + r = (q div M) * (M * M) + ((q mod M) * M + r)"
  proof -
    define d e where "d = q div M" and "e = q mod M"
    have "q = d * M + e" by (simp add: d_def e_def)
    then have "q * M + r = (d * M + e) * M + r" by (simp only:)
    also have "\<dots> = d * (M * M) + (e * M + r)" by (simp add: algebra_simps)
    finally show ?thesis unfolding d_def e_def .
  qed
  moreover have "0 \<le> (q mod M) * M + r"
  proof -
    have "0 \<le> (q mod M) * M" using assms(1) by simp
    then show ?thesis using assms(2) by linarith
  qed
  moreover have "(q mod M) * M + r < M * M"
  proof -
    have "q mod M \<le> M - 1" using assms(1) by simp
    then have "(q mod M) * M \<le> (M - 1) * M" by (rule mult_right_mono) (use assms in simp)
    then have "(q mod M) * M \<le> M * M - M" by (simp add: algebra_simps)
    then show ?thesis using assms(3) by linarith
  qed
  ultimately show ?thesis by (rule divmod_unique_int)
qed

lemma double_split:
  fixes N :: int
  assumes "0 < N" "0 \<le> Pl" "Pl < 2 * N"
  shows "(2 * (Ph * (2 * N) + Pl)) mod ((2 * N) * (2 * N)) =
         (2 * (Ph mod N) + Pl div N) * (2 * N) + 2 * (Pl mod N)"
proof -
  define q r where "q = Ph div N" and "r = Ph mod N"
  define u v where "u = Pl div N" and "v = Pl mod N"
  have e1: "Ph = q * N + r" by (simp add: q_def r_def)
  have e2: "Pl = u * N + v" by (simp add: u_def v_def)
  have r: "0 \<le> r" "r < N" using assms(1) by (simp_all add: r_def)
  have v: "0 \<le> v" "v < N" using assms(1) by (simp_all add: v_def)
  have u0: "0 \<le> u" unfolding u_def using assms by (simp add: pos_imp_zdiv_nonneg_iff)
  have u1: "u < 2" unfolding u_def by (rule div_less_int) (use assms in simp_all)
  have "2 * (Ph * (2 * N) + Pl) = 2 * ((q * N + r) * (2 * N) + (u * N + v))"
    by (simp only: e1 [symmetric] e2 [symmetric])
  also have "\<dots> = q * ((2 * N) * (2 * N)) + ((2 * r + u) * (2 * N) + 2 * v)"
    by (simp add: algebra_simps)
  finally have eq: "2 * (Ph * (2 * N) + Pl) = q * ((2 * N) * (2 * N)) + ((2 * r + u) * (2 * N) + 2 * v)" .
  have "0 \<le> (2 * r + u) * (2 * N)" using r u0 assms(1) by simp
  then have lb: "0 \<le> (2 * r + u) * (2 * N) + 2 * v" using v by linarith
  have "2 * r + u \<le> 2 * N - 1" using r u1 by linarith
  then have "(2 * r + u) * (2 * N) \<le> (2 * N - 1) * (2 * N)"
    by (rule mult_right_mono) (use assms in simp)
  then have "(2 * r + u) * (2 * N) \<le> (2 * N) * (2 * N) - 2 * N" by (simp add: algebra_simps)
  then have ub: "(2 * r + u) * (2 * N) + 2 * v < (2 * N) * (2 * N)" using v by linarith
  show ?thesis
    unfolding q_def [symmetric] r_def [symmetric] u_def [symmetric] v_def [symmetric]
    using eq lb ub by (rule divmod_unique_int)
qed

lemma ToUint32_bounds: "0 \<le> ToUint32 x" "ToUint32 x < 0x100000000"
  unfolding ToUint32_take_bit by (rule take_bit_32_bounds)+

lemma ToUint32_js_shl_1: "ToUint32 (js_shl x 1) = 2 * (ToUint32 x mod 0x80000000)"
proof -
  have "ToUint32 (js_shl x 1) = take_bit 32 (push_bit 1 (ToInt32 x))"
    unfolding js_shl_def ToUint32_take_bit take_bit_ToInt32 by simp
  also have "\<dots> = push_bit 1 (take_bit 31 (ToInt32 x))" by (simp only: take_bit_push_bit) simp
  also have "take_bit 31 (ToInt32 x) = take_bit 31 x" by (rule take_bit_le_ToInt32) simp
  also have "take_bit 31 x = take_bit 31 (take_bit 32 x)" by simp
  also have "\<dots> = ToUint32 x mod 0x80000000"
    unfolding ToUint32_take_bit take_bit_eq_mod [of 31] by simp
  finally show ?thesis by (simp add: push_bit_eq_mult)
qed

lemma js_ushr_31: "js_ushr x 31 = ToUint32 x div 0x80000000"
  unfolding js_ushr_def drop_bit_eq_div by simp

lemma js_ushr_31_bounds: "0 \<le> js_ushr x 31" "js_ushr x 31 < 2"
proof -
  show "0 \<le> js_ushr x 31" unfolding js_ushr_31 using ToUint32_bounds(1) [of x]
    by (simp only: pos_imp_zdiv_nonneg_iff [of 2147483648] zero_less_numeral)
  show "js_ushr x 31 < 2" unfolding js_ushr_31
    by (rule div_less_int) (use ToUint32_bounds(2) [of x] in simp_all)
qed

lemma high_word_shift:
  "ToUint32 (js_or (js_shl h 1) (js_ushr l 31)) =
   2 * (ToUint32 h mod 0x80000000) + ToUint32 l div 0x80000000"
proof -
  define X where "X = ToUint32 h mod 0x80000000"
  define Y where "Y = js_ushr l 31"
  have Yb: "0 \<le> Y" "Y < 2" unfolding Y_def by (rule js_ushr_31_bounds)+
  then have Y1: "take_bit 1 Y = Y" unfolding take_bit_eq_mod by simp
  have Y32: "take_bit 32 Y = Y" using Yb unfolding take_bit_eq_mod by simp
  have 1: "take_bit 32 (js_shl h 1) = push_bit 1 X"
    using ToUint32_js_shl_1 [of h] unfolding ToUint32_take_bit [symmetric] X_def
    by (simp add: push_bit_eq_mult)
  have "ToUint32 (js_or (js_shl h 1) (js_ushr l 31)) = push_bit 1 X OR take_bit 1 Y"
    unfolding ToUint32_js_or 1 Y_def [symmetric] Y32 Y1 ..
  also have "\<dots> = concat_bit 1 Y X" by (simp only: concat_bit_def or.commute)
  also have "\<dots> = take_bit 1 Y + push_bit 1 X" by (rule concat_bit_eq)
  also have "\<dots> = 2 * X + Y" unfolding Y1 by (simp add: push_bit_eq_mult)
  finally show ?thesis unfolding X_def Y_def js_ushr_31 .
qed

lemma mul2_value:
  "ToUint32 (fst (mul2 a b)) * 0x100000000 + ToUint32 (snd (mul2 a b)) =
   (2 * (ToUint32 a * ToUint32 b)) mod 0x10000000000000000"
proof -
  define h l where "h = fst (mul a b)" and "l = snd (mul a b)"
  define p where "p = ToUint32 a * ToUint32 b"
  have hl: "mul a b = (h, l)" by (simp add: h_def l_def)
  have Uh: "ToUint32 h = p div 0x100000000" and Ul: "ToUint32 l = p mod 0x100000000"
    unfolding h_def l_def p_def by (rule mul_halves)+
  have p: "p = ToUint32 h * (2 * 0x80000000) + ToUint32 l" unfolding Uh Ul by simp
  have f: "fst (mul2 a b) = ToInt32 (js_or (js_shl h 1) (js_ushr l 31))"
    unfolding mul2_def hl Let_def prod.case fst_conv js_and_ffffffff ..
  have s: "snd (mul2 a b) = ToInt32 (js_shl l 1)"
    unfolding mul2_def hl Let_def prod.case snd_conv js_and_ffffffff ..
  have N: "(0::int) < 0x80000000" by simp
  have lb: "0 \<le> ToUint32 l" "ToUint32 l < 2 * 0x80000000"
    using ToUint32_bounds [of l] by simp_all
  note ds = double_split [OF N lb, of "ToUint32 h", folded p]
  have "ToUint32 (fst (mul2 a b)) * 0x100000000 + ToUint32 (snd (mul2 a b)) =
        (2 * (ToUint32 h mod 0x80000000) + ToUint32 l div 0x80000000) * (2 * 0x80000000)
        + 2 * (ToUint32 l mod 0x80000000)"
    by (simp only: f s ToUint32_ToInt32 high_word_shift ToUint32_js_shl_1)
  also have "\<dots> = (2 * p) mod ((2 * 0x80000000) * (2 * 0x80000000))"
    by (rule ds [symmetric])
  finally show ?thesis unfolding p_def by simp
qed

lemma js_ushr_0: "js_ushr x 0 = ToUint32 x"
  unfolding js_ushr_def by simp

lemma ToUint32_cong_mod: "ToUint32 x mod 0x100000000 = x mod 0x100000000"
  unfolding ToUint32_def by simp

lemma blamka_value:
  "ToUint32 (fst (blamka Ah Al Bh Bl)) * 0x100000000 + ToUint32 (snd (blamka Ah Al Bh Bl)) =
   ((ToUint32 Ah * 0x100000000 + ToUint32 Al) + (ToUint32 Bh * 0x100000000 + ToUint32 Bl)
     + 2 * (ToUint32 Al * ToUint32 Bl)) mod 0x10000000000000000"
proof -
  define Ch Cl where "Ch = fst (mul2 Al Bl)" and "Cl = snd (mul2 Al Bl)"
  define Rll where "Rll = ToUint32 Al + ToUint32 Bl + ToUint32 Cl"
  define q where "q = ToUint32 Ah + ToUint32 Bh + ToUint32 Ch + Rll div 0x100000000"
  have C: "mul2 Al Bl = (Ch, Cl)" by (simp add: Ch_def Cl_def)
  have Cv: "ToUint32 Ch * 0x100000000 + ToUint32 Cl =
            (2 * (ToUint32 Al * ToUint32 Bl)) mod 0x10000000000000000"
    unfolding Ch_def Cl_def by (rule mul2_value)
  have f: "fst (blamka Ah Al Bh Bl) = ToInt32 (Ah + Bh + Ch + ToInt32 (Rll div 0x100000000))"
    unfolding blamka_def C Let_def prod.case fst_conv add3H_def add3L_def js_or_zero js_ushr_0 Rll_def ..
  have s: "snd (blamka Ah Al Bh Bl) = ToInt32 Rll"
    unfolding blamka_def C Let_def prod.case snd_conv add3L_def js_or_zero js_ushr_0 Rll_def ..
  have "(Ah + Bh + Ch + ToInt32 (Rll div 0x100000000)) mod 0x100000000 = q mod 0x100000000"
    unfolding q_def
    by (intro mod_add_cong) (simp_all only: ToUint32_cong_mod ToInt32_mod)
  then have Uf: "ToUint32 (fst (blamka Ah Al Bh Bl)) = q mod 0x100000000"
    unfolding f ToUint32_ToInt32 unfolding ToUint32_def .
  have Us: "ToUint32 (snd (blamka Ah Al Bh Bl)) = Rll mod 0x100000000"
    unfolding s ToUint32_ToInt32 unfolding ToUint32_def ..
  have M: "(0::int) < 0x100000000" by simp
  have r: "0 \<le> Rll mod 0x100000000" "Rll mod 0x100000000 < 0x100000000" by simp_all
  have "ToUint32 (fst (blamka Ah Al Bh Bl)) * 0x100000000 + ToUint32 (snd (blamka Ah Al Bh Bl))
        = (q * 0x100000000 + Rll mod 0x100000000) mod (0x100000000 * 0x100000000)"
    unfolding Uf Us by (rule mod_square_split [OF M r, symmetric])
  also have "q * 0x100000000 + Rll mod 0x100000000 =
     (ToUint32 Ah * 0x100000000 + ToUint32 Al) + (ToUint32 Bh * 0x100000000 + ToUint32 Bl)
      + (ToUint32 Ch * 0x100000000 + ToUint32 Cl)"
  proof -
    define d e where "d = Rll div 0x100000000" and "e = Rll mod 0x100000000"
    have "Rll = d * 0x100000000 + e" by (simp add: d_def e_def)
    then have "ToUint32 Al + ToUint32 Bl + ToUint32 Cl = d * 0x100000000 + e"
      unfolding Rll_def .
    then show ?thesis unfolding q_def d_def [symmetric] e_def [symmetric]
      by (simp add: algebra_simps)
  qed
  also have "(0x100000000::int) * 0x100000000 = 0x10000000000000000" by simp
  finally show ?thesis unfolding Cv by (simp only: mod_add_right_eq)
qed

section \<open>BlaMka\<close>

text \<open>
  Claim C6. For 64-bit operands \<open>A\<close> and \<open>B\<close> given as unsigned 32-bit halves,
  \<open>blamka(Ah, Al, Bh, Bl)\<close> returns the high and low halves of
  \<open>(A + B + 2 * (A mod 2^32) * (B mod 2^32)) mod 2^64\<close>. Each half comes back as the
  number \<open>ToInt32\<close> of it (the source ends in \<open>| 0\<close>): read as an unsigned 32-bit value,
  as a store into a \<open>Uint32Array\<close> does, it is the half itself.
\<close>

theorem blamka_spec:
  fixes Ah Al Bh Bl :: int
  assumes "0 \<le> Ah" "Ah < 2 ^ 32" "0 \<le> Al" "Al < 2 ^ 32"
      and "0 \<le> Bh" "Bh < 2 ^ 32" "0 \<le> Bl" "Bl < 2 ^ 32"
  defines "X \<equiv> Ah * 2 ^ 32 + Al" and "Y \<equiv> Bh * 2 ^ 32 + Bl"
  defines "R \<equiv> (X + Y + 2 * (X mod 2 ^ 32) * (Y mod 2 ^ 32)) mod 2 ^ 64"
  shows "ToUint32 (fst (blamka Ah Al Bh Bl)) = R div 2 ^ 32
       \<and> ToUint32 (snd (blamka Ah Al Bh Bl)) = R mod 2 ^ 32
       \<and> blamka Ah Al Bh Bl = (ToInt32 (R div 2 ^ 32), ToInt32 (R mod 2 ^ 32))"
proof -
  have p32: "(2::int) ^ 32 = 0x100000000" and p64: "(2::int) ^ 64 = 0x10000000000000000"
    by simp_all
  have U: "ToUint32 Ah = Ah" "ToUint32 Al = Al" "ToUint32 Bh = Bh" "ToUint32 Bl = Bl"
    using assms(1-8) unfolding p32 by (simp_all only: ToUint32_small)
  have Am: "X mod 0x100000000 = Al"
  proof -
    have "X = Ah * 0x100000000 + Al" unfolding X_def p32 ..
    moreover have "0 \<le> Al" "Al < 0x100000000" using assms(3,4) unfolding p32 .
    ultimately show ?thesis by (rule divmod_unique_int)
  qed
  have Bm: "Y mod 0x100000000 = Bl"
  proof -
    have "Y = Bh * 0x100000000 + Bl" unfolding Y_def p32 ..
    moreover have "0 \<le> Bl" "Bl < 0x100000000" using assms(7,8) unfolding p32 .
    ultimately show ?thesis by (rule divmod_unique_int)
  qed
  define h l where "h = fst (blamka Ah Al Bh Bl)" and "l = snd (blamka Ah Al Bh Bl)"
  have R': "R = (X + Y + 2 * (Al * Bl)) mod 0x10000000000000000"
    unfolding R_def p32 p64 Am Bm by (simp only: mult.assoc)
  have "ToUint32 h * 0x100000000 + ToUint32 l = R"
    unfolding h_def l_def blamka_value U R' unfolding X_def Y_def p32 ..
  then have Rv: "R = ToUint32 h * 0x100000000 + ToUint32 l" ..
  note dm = divmod_unique_int [OF Rv ToUint32_bounds [of l]]
  have hh: "ToInt32 (ToUint32 h) = h"
  proof -
    have "ToInt32 (ToUint32 h) = ToInt32 h"
      by (rule ToInt32_cong) (rule ToUint32_cong_mod)
    also have "h = ToInt32 (add3H (add3L Al Bl (snd (mul2 Al Bl))) Ah Bh (fst (mul2 Al Bl)))"
      unfolding h_def blamka_def Let_def case_prod_beta fst_conv add3H_def js_or_zero
      by (simp only: ToInt32_idem)
    then have "ToInt32 h = h"
      unfolding h_def blamka_def Let_def case_prod_beta fst_conv by (simp only: ToInt32_idem)
    finally show ?thesis .
  qed
  have ll: "ToInt32 (ToUint32 l) = l"
  proof -
    have "ToInt32 (ToUint32 l) = ToInt32 l"
      by (rule ToInt32_cong) (rule ToUint32_cong_mod)
    also have "\<dots> = l"
      unfolding l_def blamka_def Let_def case_prod_beta snd_conv js_or_zero
      by (simp only: ToInt32_idem)
    finally show ?thesis .
  qed
  have "blamka Ah Al Bh Bl = (h, l)" by (simp add: h_def l_def)
  then show ?thesis
    unfolding h_def [symmetric] l_def [symmetric] p32 dm by (simp only: hh ll simp_thms)
qed

theorem blamka_spec_witness:
  "(0::int) \<le> 0xffffffff \<and> (0xffffffff::int) < 2 ^ 32
   \<and> ToUint32 (fst (blamka 0xffffffff 0xffffffff 0xffffffff 0xffffffff)) = 0xfffffffc
   \<and> ToUint32 (snd (blamka 0xffffffff 0xffffffff 0xffffffff 0xffffffff)) = 0
   \<and> blamka 0xffffffff 0xffffffff 0xffffffff 0xffffffff = (ToInt32 0xfffffffc, ToInt32 0)"
proof -
  have a: "(0::int) \<le> 0xffffffff" and b: "(0xffffffff::int) < 2 ^ 32" by simp_all
  have e: "((((0xffffffff::int) * 2 ^ 32 + 0xffffffff) + (0xffffffff * 2 ^ 32 + 0xffffffff) +
      2 * ((0xffffffff * 2 ^ 32 + 0xffffffff) mod 2 ^ 32) * ((0xffffffff * 2 ^ 32 + 0xffffffff) mod 2 ^ 32)) mod 2 ^ 64) = 0xfffffffc00000000"
    by simp
  note t = blamka_spec [OF a b a b a b a b, unfolded e]
  have d: "(0xfffffffc00000000::int) div 2 ^ 32 = 0xfffffffc" "(0xfffffffc00000000::int) mod 2 ^ 32 = 0"
    by simp_all
  show ?thesis using t a b unfolding d by blast
qed

section \<open>Validation and initialisation\<close>

lemma initOpts_Inr:
  assumes "initOpts opts = Inr mg"
  shows "mg = \<lparr> mg_t = opt_t opts, mg_m = opt_m opts, mg_p = opt_p opts,
                 mg_version = dflt 0x13 (opt_version opts),
                 mg_key = opt_key opts,
                 mg_personalization = opt_personalization opts,
                 mg_dkLen = dflt 32 (opt_dkLen opts),
                 mg_asyncTick = dflt 10 (opt_asyncTick opts),
                 mg_maxmem = dflt (2 ^ 32 - 1) (opt_maxmem opts),
                 mg_onProgress = opt_onProgress opts \<rparr>"
    and "isUint32 (mg_dkLen mg)" "4 \<le> mg_dkLen mg"
    and "1 \<le> mg_p mg" "mg_p mg < 2 ^ 24"
    and "isUint32 (mg_m mg)" "8 * mg_p mg \<le> mg_m mg"
    and "isUint32 (mg_t mg)" "1 \<le> mg_t mg"
    and "mg_onProgress mg = None \<or> mg_onProgress mg = Some Function"
    and "mg_version mg = 0x10 \<or> mg_version mg = 0x13"
  using assms unfolding initOpts_def Let_def
  by (auto split: if_splits)

lemma AT_range: "AT ty \<in> {0, 1, 2}"
  by (cases ty) simp_all

lemma argon2Init_valid:
  assumes "isUint32 (int (length password))"
      and "isUint32 (int (length salt))" "8 \<le> length salt"
      and "initOpts opts = Inr mg"
  shows "argon2Init hb password salt ty opts hp =
    (if \<not> isUint32 (mg_maxmem mg) \<or> fst (geometry (mg_p mg) (mg_m mg)) * 256 > mg_maxmem mg
     then Inl (ErrMaxmem,
       hp\<lparr> BUF := [word_of_int (int (length (toBytesOptional (mg_personalization mg))))],
           H0 := u32 (blake2b hb 64 (H0_input (mg_p mg) (mg_dkLen mg) (mg_m mg) (mg_t mg)
                       (mg_version mg) ty password salt (toBytesOptional (mg_key mg))
                       (toBytesOptional (mg_personalization mg)))) @ [0, 0] \<rparr>)
     else Inr (init_of ty mg,
       hp\<lparr> BUF := fill0 [word_of_int (int (length (toBytesOptional (mg_personalization mg))))],
           H0 := fill0 (snd (fold (firstBlocks hb (fst (snd (geometry (mg_p mg) (mg_m mg)))))
                   [0..<nat (mg_p mg)]
                   (replicate (nat (fst (geometry (mg_p mg) (mg_m mg)) * 256)) 0,
                    u32 (blake2b hb 64 (H0_input (mg_p mg) (mg_dkLen mg) (mg_m mg) (mg_t mg)
                       (mg_version mg) ty password salt (toBytesOptional (mg_key mg))
                       (toBytesOptional (mg_personalization mg)))) @ [0, 0]))),
           B := fst (fold (firstBlocks hb (fst (snd (geometry (mg_p mg) (mg_m mg)))))
                   [0..<nat (mg_p mg)]
                   (replicate (nat (fst (geometry (mg_p mg) (mg_m mg)) * 256)) 0,
                    u32 (blake2b hb 64 (H0_input (mg_p mg) (mg_dkLen mg) (mg_m mg) (mg_t mg)
                       (mg_version mg) ty password salt (toBytesOptional (mg_key mg))
                       (toBytesOptional (mg_personalization mg)))) @ [0, 0])) \<rparr>,
       \<lparr> blockCnt = 0, reported = [] \<rparr>))"
proof -
  have len: "\<not> length salt < 8" using assms(3) by simp
  have u: "h\<lparr> BUF := b, H0 := c \<rparr>\<lparr> BUF := b', H0 := c', B := d \<rparr>
         = h\<lparr> BUF := b', H0 := c', B := d \<rparr>" for h :: heap and b b' c c' d
    by simp
  show ?thesis
    unfolding argon2Init_def
    by (simp only: assms(1,2,4) len AT_range simp_thms if_False if_True sum.case Let_def
         case_prod_beta init_of_def fst_conv snd_conv u)
qed


lemma sum_Inr_ex: "(\<exists>a b c. Inr (x, y, z) = Inr (a, b, c))"
  by blast

lemma argon2_Inl_iff:
  "(argon2 hb ty password salt opts = Inl e)
     = (\<exists>hp. argon2Init hb password salt ty opts heap0 = Inl (e, hp))"
  unfolding argon2_def Let_def case_prod_beta by (auto split: sum.splits)

lemma argon2_Inr_iff:
  "(\<exists>res. argon2 hb ty password salt opts = Inr res)
     = (\<exists>x. argon2Init hb password salt ty opts heap0 = Inr x)"
  unfolding argon2_def Let_def case_prod_beta by (simp split: sum.splits)

lemma geometry_fst: "fst (geometry p m) = 4 * p * (m div (4 * p))"
  unfolding geometry_def Let_def ARGON2_SYNC_POINTS_def by simp

lemma initOpts_min_opts:
  assumes "cb = None \<or> cb = Some Function" "4 \<le> d" "d < 2 ^ 32"
  shows "initOpts (min_opts\<lparr> opt_key := k, opt_personalization := x, opt_dkLen := Some d,
                             opt_asyncTick := a, opt_maxmem := mm, opt_onProgress := cb \<rparr>)
         = Inr \<lparr> mg_t = 1, mg_m = 8, mg_p = 1, mg_version = 0x13, mg_key = k,
                 mg_personalization = x, mg_dkLen = d, mg_asyncTick = dflt 10 a,
                 mg_maxmem = dflt (2 ^ 32 - 1) mm, mg_onProgress = cb \<rparr>"
  using assms
  by (auto simp add: initOpts_def min_opts_def dflt_def isUint32_def maxUint32_def Let_def)

lemma isUint32_small: "isUint32 0" "isUint32 8"
  by (simp_all add: isUint32_def maxUint32_def)

lemma salt8_length: "length salt8 = 8"
  by (simp add: salt8_def)

lemma geometry_min: "geometry 1 8 = (8, 8, 2)"
  by (simp add: geometry_def ARGON2_SYNC_POINTS_def)

section \<open>The result of a successful call\<close>

lemma argon2_success:
  assumes "argon2Init hb password salt ty opts heap0 = Inr (ini, hp, g)"
  shows "argon2 hb ty password salt opts =
    Inr (fst (argon2Output hb ((fst (filled ini hp g))\<lparr> address := fill0 (address (fst (filled ini hp g))) \<rparr>)
               (i_p ini) (i_laneLen ini) (i_dkLen ini)),
         snd (argon2Output hb ((fst (filled ini hp g))\<lparr> address := fill0 (address (fst (filled ini hp g))) \<rparr>)
               (i_p ini) (i_laneLen ini) (i_dkLen ini)),
         snd (filled ini hp g))"
  unfolding argon2_def assms filled_def
  by (simp only: sum.case prod.case Let_def case_prod_beta fst_conv snd_conv)

lemma argon2Async_success:
  assumes "argon2Init hb password salt ty opts heap0 = Inr (ini, hp, g)"
  shows "argon2Async hb now ty password salt opts =
    Inr (fst (argon2Output hb ((fst (fst (filledAsync now ini hp g)))
                 \<lparr> address := fill0 (address (fst (fst (filledAsync now ini hp g)))) \<rparr>)
               (i_p ini) (i_laneLen ini) (i_dkLen ini)),
         snd (argon2Output hb ((fst (fst (filledAsync now ini hp g)))
                 \<lparr> address := fill0 (address (fst (fst (filledAsync now ini hp g)))) \<rparr>)
               (i_p ini) (i_laneLen ini) (i_dkLen ini)),
         snd (fst (filledAsync now ini hp g)),
         snd (filledAsync now ini hp g))"
  unfolding argon2Async_def assms filledAsync_def
  by (simp only: sum.case prod.case Let_def case_prod_beta fst_conv snd_conv)

section \<open>Length of the variable-length hash\<close>

lemma length_blake2b: "length (blake2b hb n msg) = n"
  by (simp add: blake2b_def)

lemma length_set_at:
  "offset + length src \<le> length target \<Longrightarrow> length (set_at target src offset) = length target"
  by (simp add: set_at_def)

lemma length_u8: "length (u8 ws) = 4 * length ws"
  by (induction ws) (simp_all add: u8_def le_bytes_def)

lemma length_u32: "length (u32 bs) = length bs div 4"
  by (induction bs rule: u32.induct) simp_all

lemma Hp_loop_length:
  assumes "length out = dkLen" "pos \<le> dkLen" "Hp_loop hb dkLen (out, V, pos) = (out', V', pos')"
  shows "length out' = dkLen \<and> pos' \<le> dkLen"
  using assms
proof (induction hb dkLen "(out, V, pos)" arbitrary: out V pos rule: Hp_loop.induct)
  case (1 hb dkLen out V pos)
  show ?case
  proof (cases "int dkLen - int pos > 64")
    case True
    define V1 where "V1 = blake2b hb 64 V"
    define out1 where "out1 = set_at out (take 32 V1) pos"
    have l1: "length (take 32 V1) = 32" by (simp add: V1_def length_blake2b)
    have "pos + 32 \<le> dkLen" using True by linarith
    then have lo: "length out1 = dkLen" and p: "pos + 32 \<le> dkLen"
      unfolding out1_def using "1.prems"(1) l1 by (simp_all add: length_set_at)
    have "Hp_loop hb dkLen (out1, V1, pos + 32) = (out', V', pos')"
      using "1.prems"(3) True by (subst (asm) Hp_loop.simps) (simp add: V1_def out1_def Let_def)
    from "1.hyps" [OF True V1_def out1_def lo p this] show ?thesis .
  next
    case False
    then have "(out', V', pos') = (out, V, pos)"
      using "1.prems"(3) by (subst (asm) Hp_loop.simps) simp
    then show ?thesis using "1.prems"(1,2) by simp
  qed
qed

lemma Hp_long_length:
  assumes "64 < dkLen"
  shows "length (u8_view (Hp hb A dkLen)) = 4 * (dkLen div 4)"
proof -
  define V where "V = blake2b hb 64 (u8 [of_nat dkLen] @ u8 A)"
  define out1 where "out1 = set_at (replicate dkLen (0::8 word)) (take 32 V) 0"
  obtain out2 V2 pos where L: "Hp_loop hb dkLen (out1, V, 32) = (out2, V2, pos)"
    by (cases "Hp_loop hb dkLen (out1, V, 32)") auto
  define out3 where "out3 = set_at out2 (blake2b hb (dkLen - pos) V2) pos"
  have "length (take 32 V) = 32" by (simp add: V_def length_blake2b)
  then have l1: "length out1 = dkLen" unfolding out1_def using assms by (simp add: length_set_at)
  have "32 \<le> dkLen" using assms by simp
  from Hp_loop_length [OF l1 this L] have l2: "length out2 = dkLen" and p: "pos \<le> dkLen" by simp_all
  have l3: "length out3 = dkLen" unfolding out3_def using l2 p
    by (simp add: length_set_at length_blake2b)
  have "Hp hb A dkLen = U32 (u32 out3)"
    unfolding Hp_def Let_def using assms
    by (simp add: V_def [symmetric] out1_def [symmetric] L out3_def)
  then show ?thesis by (simp add: u8_view_def length_u8 length_u32 l3)
qed

lemma Hp_short_length:
  assumes "dkLen \<le> 64"
  shows "length (u8_view (Hp hb A dkLen)) = dkLen"
  using assms by (simp add: Hp_def u8_view_def length_blake2b)

lemma argon2Output_length:
  "length (fst (argon2Output hb hp p laneLen dkLen)) =
     (if nat dkLen \<le> 64 then nat dkLen else 4 * (nat dkLen div 4))"
  unfolding argon2Output_def Let_def fst_conv
  by (simp add: Hp_long_length Hp_short_length)

section \<open>Length of the tag\<close>

lemma initOpts_dkLen:
  "initOpts (min_opts\<lparr> opt_dkLen := Some 65 \<rparr>)
     = Inr \<lparr> mg_t = 1, mg_m = 8, mg_p = 1, mg_version = 0x13, mg_key = None,
             mg_personalization = None, mg_dkLen = 65, mg_asyncTick = 10,
             mg_maxmem = 2 ^ 32 - 1, mg_onProgress = None \<rparr>"
  by (simp add: initOpts_def min_opts_def dflt_def isUint32_def maxUint32_def Let_def)

lemma argon2Init_Inr_init_of:
  assumes "isUint32 (int (length password))"
      and "isUint32 (int (length salt))" "8 \<le> length salt"
      and "initOpts opts = Inr mg"
      and "isUint32 (mg_maxmem mg)" "fst (geometry (mg_p mg) (mg_m mg)) * 256 \<le> mg_maxmem mg"
  shows "\<exists>hp'. argon2Init hb password salt ty opts hp
           = Inr (init_of ty mg, hp', \<lparr> blockCnt = 0, reported = [] \<rparr>)"
proof -
  have "\<not> (\<not> isUint32 (mg_maxmem mg) \<or> fst (geometry (mg_p mg) (mg_m mg)) * 256 > mg_maxmem mg)"
    using assms(5,6) by simp
  then show ?thesis
    unfolding argon2Init_valid [OF assms(1-4)] by (simp only: if_False) blast
qed

lemma init_of_simps:
  "i_type (init_of ty mg) = ty"
  "i_mP (init_of ty mg) = fst (geometry (mg_p mg) (mg_m mg))"
  "i_p (init_of ty mg) = mg_p mg"
  "i_t (init_of ty mg) = mg_t mg"
  "i_version (init_of ty mg) = mg_version mg"
  "i_laneLen (init_of ty mg) = fst (snd (geometry (mg_p mg) (mg_m mg)))"
  "i_lanes (init_of ty mg) = mg_p mg"
  "i_segmentLen (init_of ty mg) = snd (snd (geometry (mg_p mg) (mg_m mg)))"
  "i_dkLen (init_of ty mg) = mg_dkLen mg"
  "i_perBlock (init_of ty mg) =
     perBlock_of (mg_onProgress mg) (mg_t mg) (mg_p mg) (snd (snd (geometry (mg_p mg) (mg_m mg))))"
  "i_asyncTick (init_of ty mg) = mg_asyncTick mg"
  by (simp_all add: init_of_def case_prod_beta)

lemma empty_password: "isUint32 (int (length ([] :: Uint8Array)))"
  by (simp add: isUint32_small)

lemma salt8_ok: "isUint32 (int (length salt8))" "8 \<le> length salt8"
  by (simp_all add: salt8_length isUint32_small)

lemma isUint32_default_maxmem: "isUint32 (2 ^ 32 - 1)" "(8::int) * 256 \<le> 2 ^ 32 - 1"
  by (simp_all add: isUint32_def maxUint32_def)

text \<open>
  Claim C2, at the failing input \<open>dkLen = 65\<close>. \<open>Hp\<close> returns \<open>u32(out)\<close>, a view of
  \<open>\<lfloor>65 / 4\<rfloor> = 16\<close> words over the 65 bytes it has filled, so its output and the tag of
  \<open>argon2\<close> are 64 bytes long, not 65.
\<close>

theorem tag_length_65:
  "length (u8_view (Hp hb A 65)) = 64
   \<and> (\<exists>res hp g. argon2 hb ty [] salt8 (min_opts\<lparr> opt_dkLen := Some 65 \<rparr>) = Inr (res, hp, g)
         \<and> length res = 64)"
proof -
  have 1: "length (u8_view (Hp hb A 65)) = 64"
    by (subst Hp_long_length) simp_all
  obtain hp' where i: "argon2Init hb [] salt8 ty (min_opts\<lparr> opt_dkLen := Some 65 \<rparr>) heap0
      = Inr (init_of ty \<lparr> mg_t = 1, mg_m = 8, mg_p = 1, mg_version = 0x13, mg_key = None,
             mg_personalization = None, mg_dkLen = 65, mg_asyncTick = 10,
             mg_maxmem = 2 ^ 32 - 1, mg_onProgress = None \<rparr>, hp', \<lparr> blockCnt = 0, reported = [] \<rparr>)"
    using argon2Init_Inr_init_of [OF empty_password salt8_ok initOpts_dkLen, of hb ty heap0]
    by (simp only: Merged.simps geometry_min fst_conv isUint32_default_maxmem) blast
  have "length (fst (argon2Output hb x p laneLen 65)) = 64" for x p laneLen
    unfolding argon2Output_length by simp
  then show ?thesis
    using 1 unfolding argon2_success [OF i] init_of_simps by (simp only: Merged.simps) blast
qed

section \<open>Inputs of 4 GB and more\<close>

lemma LE32_2_32: "LE32 (int (length (replicate (2 ^ 32) (0::8 word)))) = [0, 0, 0, 0]"
  by (simp add: LE32_def u8_def le_bytes_def)

lemma initOpts_big_key:
  "initOpts (min_opts\<lparr> opt_key := Some k \<rparr>)
     = Inr \<lparr> mg_t = 1, mg_m = 8, mg_p = 1, mg_version = 0x13, mg_key = Some k,
             mg_personalization = None, mg_dkLen = 32, mg_asyncTick = 10,
             mg_maxmem = 2 ^ 32 - 1, mg_onProgress = None \<rparr>"
  by (simp add: initOpts_def min_opts_def dflt_def isUint32_def maxUint32_def Let_def)

lemma initOpts_big_personalization:
  "initOpts (min_opts\<lparr> opt_personalization := Some k \<rparr>)
     = Inr \<lparr> mg_t = 1, mg_m = 8, mg_p = 1, mg_version = 0x13, mg_key = None,
             mg_personalization = Some k, mg_dkLen = 32, mg_asyncTick = 10,
             mg_maxmem = 2 ^ 32 - 1, mg_onProgress = None \<rparr>"
  by (simp add: initOpts_def min_opts_def dflt_def isUint32_def maxUint32_def Let_def)

text \<open>
  Claim C8, at the failing input: a key, or a personalization, of \<open>2^32\<close> bytes. Only the
  lengths of the password and of the salt are checked; the call returns bytes, and the
  length of the key enters \<open>H0\<close> as \<open>LE32(2^32) = 00 00 00 00\<close>.
\<close>

theorem key_of_4GB_accepted:
  "(\<exists>res. argon2 hb ty [] salt8 (min_opts\<lparr> opt_key := Some (replicate (2 ^ 32) 0) \<rparr>) = Inr res)
   \<and> (\<exists>res. argon2 hb ty [] salt8
          (min_opts\<lparr> opt_personalization := Some (replicate (2 ^ 32) 0) \<rparr>) = Inr res)
   \<and> LE32 (int (length (replicate (2 ^ 32) (0::8 word)))) = [0, 0, 0, 0]"
proof -
  have "\<exists>x. argon2Init hb [] salt8 ty (min_opts\<lparr> opt_key := Some (replicate (2 ^ 32) 0) \<rparr>) heap0 = Inr x"
    using argon2Init_Inr_init_of [OF empty_password salt8_ok initOpts_big_key, of _ hb ty heap0]
    by (simp only: Merged.simps geometry_min fst_conv isUint32_default_maxmem) blast
  moreover have "\<exists>x. argon2Init hb [] salt8 ty
      (min_opts\<lparr> opt_personalization := Some (replicate (2 ^ 32) 0) \<rparr>) heap0 = Inr x"
    using argon2Init_Inr_init_of [OF empty_password salt8_ok initOpts_big_personalization, of _ hb ty heap0]
    by (simp only: Merged.simps geometry_min fst_conv isUint32_default_maxmem) blast
  ultimately show ?thesis
    unfolding argon2_Inr_iff using LE32_2_32 by blast
qed

section \<open>Omitted key and personalization\<close>

lemma initOpts_key:
  "initOpts (opts\<lparr> opt_key := k \<rparr>)
     = (case initOpts opts of Inl e \<Rightarrow> Inl e | Inr mg \<Rightarrow> Inr (mg\<lparr> mg_key := k \<rparr>))"
  by (simp add: initOpts_def Let_def)

lemma initOpts_personalization:
  "initOpts (opts\<lparr> opt_personalization := k \<rparr>)
     = (case initOpts opts of Inl e \<Rightarrow> Inl e | Inr mg \<Rightarrow> Inr (mg\<lparr> mg_personalization := k \<rparr>))"
  by (simp add: initOpts_def Let_def)

lemma argon2Init_key_cong:
  assumes "toBytesOptional k = toBytesOptional k'"
  shows "argon2Init hb password salt ty (opts\<lparr> opt_key := k \<rparr>) hp
       = argon2Init hb password salt ty (opts\<lparr> opt_key := k' \<rparr>) hp"
  unfolding argon2Init_def initOpts_key
  by (cases "initOpts opts") (simp_all add: assms)

lemma argon2Init_personalization_cong:
  assumes "toBytesOptional k = toBytesOptional k'"
  shows "argon2Init hb password salt ty (opts\<lparr> opt_personalization := k \<rparr>) hp
       = argon2Init hb password salt ty (opts\<lparr> opt_personalization := k' \<rparr>) hp"
  unfolding argon2Init_def initOpts_personalization
  by (cases "initOpts opts") (simp_all add: assms)

lemma toBytesOptional_None: "toBytesOptional None = toBytesOptional (Some [])"
  by (simp add: toBytesOptional_def)

lemma LE32_0: "LE32 0 = [0, 0, 0, 0]"
  by (simp add: LE32_def u8_def le_bytes_def)

text \<open>
  Claim C10. A call with \<open>key\<close> undefined returns what the call with the empty key
  returns, and likewise for \<open>personalization\<close>, through the blocking and the cooperative
  entry point; an omitted field enters \<open>H0\<close> as the zero length \<open>00 00 00 00\<close> and no bytes.
\<close>

theorem omitted_is_empty:
  "argon2 hb ty password salt (opts\<lparr> opt_key := None \<rparr>)
     = argon2 hb ty password salt (opts\<lparr> opt_key := Some [] \<rparr>)
   \<and> argon2 hb ty password salt (opts\<lparr> opt_personalization := None \<rparr>)
     = argon2 hb ty password salt (opts\<lparr> opt_personalization := Some [] \<rparr>)
   \<and> argon2Async hb now ty password salt (opts\<lparr> opt_key := None \<rparr>)
     = argon2Async hb now ty password salt (opts\<lparr> opt_key := Some [] \<rparr>)
   \<and> argon2Async hb now ty password salt (opts\<lparr> opt_personalization := None \<rparr>)
     = argon2Async hb now ty password salt (opts\<lparr> opt_personalization := Some [] \<rparr>)
   \<and> H0_input p dkLen m t v ty password salt (toBytesOptional None) (toBytesOptional None)
     = concat (map LE32 [p, dkLen, m, t, v, AT ty])
       @ LE32 (int (length password)) @ password @ LE32 (int (length salt)) @ salt
       @ [0, 0, 0, 0] @ [0, 0, 0, 0]"
proof -
  note k = argon2Init_key_cong [OF toBytesOptional_None]
  note x = argon2Init_personalization_cong [OF toBytesOptional_None]
  have "H0_input p dkLen m t v ty password salt (toBytesOptional None) (toBytesOptional None)
     = concat (map LE32 [p, dkLen, m, t, v, AT ty])
       @ LE32 (int (length password)) @ password @ LE32 (int (length salt)) @ salt
       @ [0, 0, 0, 0] @ [0, 0, 0, 0]"
    by (simp add: H0_input_def toBytesOptional_def LE32_0)
  then show ?thesis
    unfolding argon2_def argon2Async_def k x by (simp only: simp_thms)
qed

section \<open>The loops, component by component\<close>

lemma snd_fold_pair:
  assumes "\<And>x a b. snd (F x (a, b)) = k x b"
  shows "snd (fold F xs (a, b)) = fold k xs b"
proof (induction xs arbitrary: a b)
  case Nil
  show ?case by simp
next
  case (Cons x xs)
  have "F x (a, b) = (fst (F x (a, b)), k x b)"
    using assms [of x a b] by (simp add: prod_eq_iff)
  then show ?case using Cons.IH [of "fst (F x (a, b))" "k x b"] by simp
qed

lemma fst_fold_pair:
  assumes "\<And>x a b. fst (F x (a, b)) = k x a"
  shows "fst (fold F xs (a, b)) = fold k xs a"
proof (induction xs arbitrary: a b)
  case Nil
  show ?case by simp
next
  case (Cons x xs)
  have "F x (a, b) = (k x a, snd (F x (a, b)))"
    using assms [of x a b] by (simp add: prod_eq_iff)
  then show ?case using Cons.IH [of "k x a" "snd (F x (a, b))"] by simp
qed

lemma fst_fold_rel:
  assumes "\<And>x a b b'. fst (F x (a, b)) = fst (F' x (a, b'))"
  shows "fst (fold F xs (a, b)) = fst (fold F' xs (a, b'))"
proof (induction xs arbitrary: a b b')
  case Nil
  show ?case by simp
next
  case (Cons x xs)
  have 1: "F x (a, b) = (fst (F' x (a, b')), snd (F x (a, b)))"
    using assms [of x a b b'] by (simp add: prod_eq_iff)
  have 2: "F' x (a, b') = (fst (F' x (a, b')), snd (F' x (a, b')))" by simp
  show ?case
    using Cons.IH [of "fst (F' x (a, b'))" "snd (F x (a, b))" "snd (F' x (a, b'))"] 1 2
    by (metis fold_simps(2))
qed

lemma fold_invariant:
  assumes "\<And>x s. I s \<Longrightarrow> I (F x s)" "I s"
  shows "I (fold F xs s)"
  using assms(2) by (induction xs arbitrary: s) (simp_all add: assms(1))

subsection \<open>The progress state\<close>

lemma snd_blockStep: "snd (blockStep ini r s l iop (hp, g)) = perBlock (i_perBlock ini) g"
  by (simp add: blockStep_def case_prod_beta Let_def)

lemma snd_laneLoop:
  "snd (laneLoop ini r s l (hp, g))
     = fold (\<lambda>_. perBlock (i_perBlock ini)) (laneBlocks r s l (i_laneLen ini) (i_segmentLen ini)) g"
  unfolding laneLoop_def Let_def prod.case
  by (rule snd_fold_pair) (rule snd_blockStep)

lemma snd_segmentLoop:
  "snd (segmentLoop ini r s (hp, g))
     = fold (\<lambda>l. fold (\<lambda>_. perBlock (i_perBlock ini))
          (laneBlocks r s l (i_laneLen ini) (i_segmentLen ini))) [0..<nat (i_p ini)] g"
  unfolding segmentLoop_def Let_def prod.case
  by (rule snd_fold_pair) (rule snd_laneLoop)

lemma snd_passLoop:
  "snd (passLoop ini r (hp, g))
     = fold (\<lambda>s. fold (\<lambda>l. fold (\<lambda>_. perBlock (i_perBlock ini))
          (laneBlocks r s l (i_laneLen ini) (i_segmentLen ini))) [0..<nat (i_p ini)])
        [0..<nat ARGON2_SYNC_POINTS] g"
  unfolding passLoop_def Let_def prod.case
  by (rule snd_fold_pair) (rule snd_segmentLoop)

lemma fold_const_map: "fold (\<lambda>_. h) (map f xs) = fold (\<lambda>_. h) xs"
  by (simp add: fold_map comp_def)

lemma fold_concat_map: "fold h (concat (map f xs)) = fold (\<lambda>x. fold h (f x)) xs"
  by (induction xs) (simp_all add: fun_eq_iff)

text \<open>\<open>perBlock\<close> is called once for each step of the traversal.\<close>

lemma snd_filled:
  "snd (filled ini hp g)
     = fold (\<lambda>_. perBlock (i_perBlock ini))
         (traversal (i_t ini) (i_p ini) (i_laneLen ini) (i_segmentLen ini)) g"
proof -
  have "snd (filled ini hp g)
     = fold (\<lambda>r. fold (\<lambda>s. fold (\<lambda>l. fold (\<lambda>_. perBlock (i_perBlock ini))
          (laneBlocks r s l (i_laneLen ini) (i_segmentLen ini))) [0..<nat (i_p ini)])
        [0..<nat ARGON2_SYNC_POINTS]) [0..<nat (i_t ini)] g"
    unfolding filled_def by (rule snd_fold_pair) (rule snd_passLoop)
  then show ?thesis
    unfolding traversal_def by (simp only: fold_concat_map fold_const_map)
qed

section \<open>The progress callback\<close>

lemma initOpts_progress_min:
  "initOpts (min_opts\<lparr> opt_onProgress := Some Function \<rparr>)
     = Inr \<lparr> mg_t = 1, mg_m = 8, mg_p = 1, mg_version = 0x13, mg_key = None,
             mg_personalization = None, mg_dkLen = 32, mg_asyncTick = 10,
             mg_maxmem = 2 ^ 32 - 1, mg_onProgress = Some Function \<rparr>"
  by (simp add: initOpts_def min_opts_def dflt_def isUint32_def maxUint32_def Let_def)

lemma traversal_min:
  "traversal 1 1 8 2 =
     [(0, 1, 0, 0, 2, 1), (0, 1, 0, 1, 3, 2), (0, 2, 0, 0, 4, 3),
      (0, 2, 0, 1, 5, 4), (0, 3, 0, 0, 6, 5), (0, 3, 0, 1, 7, 6)]"
  by (simp add: traversal_def laneBlocks_def laneStart_def indexLoop_def js_rem_def
        ARGON2_SYNC_POINTS_def upt_rec [of _ 4] upt_rec [of _ 2] upt_rec [of _ 1] Let_def)

lemma perBlock_of_min: "perBlock_of (Some Function) 1 1 2 = Callback 8 1"
  by (simp add: perBlock_of_def ARGON2_SYNC_POINTS_def)

lemma perBlock_Callback_8_1:
  "perBlock (Callback 8 1) \<lparr> blockCnt = c, reported = xs \<rparr>
     = \<lparr> blockCnt = c + 1, reported = xs @ [real_of_int (c + 1) / 8] \<rparr>"
  by (simp add: perBlock_def js_rem_def Let_def)

lemma progress_min:
  "fold (\<lambda>_. perBlock (Callback 8 1)) (traversal 1 1 8 2) \<lparr> blockCnt = 0, reported = [] \<rparr>
     = \<lparr> blockCnt = 6, reported = [1 / 8, 1 / 4, 3 / 8, 1 / 2, 5 / 8, 3 / 4] \<rparr>"
  unfolding traversal_min by (simp add: perBlock_Callback_8_1)

text \<open>
  Claim C9, at the failing input \<open>{t: 1, m: 8, p: 1}\<close> with a callback. \<open>totalBlock\<close> is
  \<open>t * 4 * p * segmentLen = 8\<close>, but \<open>perBlock\<close> runs once for each of the 6 blocks the
  loops produce (the first two blocks of a lane are filled by \<open>argon2Init\<close>), so the
  callback receives \<open>1/8, \<dots>, 6/8\<close> and its final call passes \<open>0.75\<close>, not \<open>1.0\<close>.
\<close>

theorem progress_never_complete:
  "\<exists>res hp g. argon2 hb ty [] salt8 (min_opts\<lparr> opt_onProgress := Some Function \<rparr>) = Inr (res, hp, g)
     \<and> blockCnt g = 6
     \<and> reported g = [1 / 8, 1 / 4, 3 / 8, 1 / 2, 5 / 8, 3 / 4]
     \<and> last (reported g) = 3 / 4"
proof -
  obtain hp' where i: "argon2Init hb [] salt8 ty (min_opts\<lparr> opt_onProgress := Some Function \<rparr>) heap0
      = Inr (init_of ty \<lparr> mg_t = 1, mg_m = 8, mg_p = 1, mg_version = 0x13, mg_key = None,
             mg_personalization = None, mg_dkLen = 32, mg_asyncTick = 10,
             mg_maxmem = 2 ^ 32 - 1, mg_onProgress = Some Function \<rparr>, hp',
             \<lparr> blockCnt = 0, reported = [] \<rparr>)"
    using argon2Init_Inr_init_of [OF empty_password salt8_ok initOpts_progress_min, of hb ty heap0]
    by (simp only: Merged.simps geometry_min fst_conv isUint32_default_maxmem) blast
  define ini where "ini = init_of ty \<lparr> mg_t = 1, mg_m = 8, mg_p = 1, mg_version = 0x13, mg_key = None,
             mg_personalization = None, mg_dkLen = 32, mg_asyncTick = 10,
             mg_maxmem = 2 ^ 32 - 1, mg_onProgress = Some Function \<rparr>"
  have f: "i_t ini = 1" "i_p ini = 1" "i_laneLen ini = 8" "i_segmentLen ini = 2"
    "i_perBlock ini = Callback 8 1"
    unfolding ini_def init_of_simps
    by (simp_all only: Merged.simps geometry_min fst_conv snd_conv perBlock_of_min)
  have g: "snd (filled ini hp' \<lparr> blockCnt = 0, reported = [] \<rparr>)
     = \<lparr> blockCnt = 6, reported = [1 / 8, 1 / 4, 3 / 8, 1 / 2, 5 / 8, 3 / 4] \<rparr>"
    unfolding snd_filled f by (rule progress_min)
  show ?thesis
    unfolding argon2_success [OF i [folded ini_def]] g by simp
qed

section \<open>What the block function leaves behind\<close>

lemma length_Let: "length (Let e f) = (let x = e in length (f x))"
  by (simp add: Let_def)

lemma length_case_prod:
  "length (case p of (a, b) \<Rightarrow> f a b) = (case p of (a, b) \<Rightarrow> length (f a b))"
  by (cases p) simp

lemma Let_constant: "(let x = e in c) = c"
  by (simp add: Let_def)

lemma case_prod_constant: "(case p of (a, b) \<Rightarrow> c) = c"
  by (cases p) simp

lemma length_G: "length (G a b c d buf) = length buf"
  unfolding G_def
  by (simp only: length_Let length_case_prod length_list_update Let_constant case_prod_constant)

lemma length_P:
  "length (P v00 v01 v02 v03 v04 v05 v06 v07 v08 v09 v10 v11 v12 v13 v14 v15 buf) = length buf"
  unfolding P_def Let_def by (simp only: length_G)

lemma length_fold_same:
  assumes "\<And>x ys. length (F x ys) = length ys"
  shows "length (fold F xs ys) = length ys"
  by (induction xs arbitrary: ys) (simp_all add: assms)

lemma block_scratch: "snd (block x xPos yPos outPos needXor buf) = replicate (length buf) 0"
  unfolding block_def Let_def snd_conv fill0_def map_replicate_const
  by (simp only: length_fold_same length_P length_list_update)

lemma block_length: "length (fst (block x xPos yPos outPos needXor buf)) = length x"
  unfolding block_def Let_def fst_conv
  by (simp only: if_distrib [of length] length_fold_same length_list_update if_cancel)

lemma aux_kept_block_address:
  "aux_kept h0 buf hp \<Longrightarrow> aux_kept h0 buf (block_address hp xPos yPos outPos needXor)"
  unfolding aux_kept_def block_address_def case_prod_beta Let_def
  by (simp add: block_scratch block_length)

lemma aux_kept_block_B:
  "aux_kept h0 buf hp \<Longrightarrow> aux_kept h0 buf (block_B hp xPos yPos outPos needXor)"
  unfolding aux_kept_def block_B_def case_prod_beta Let_def
  by (simp add: block_scratch)

lemma aux_kept_address_set: "aux_kept h0 buf hp \<Longrightarrow> aux_kept h0 buf (address_set i v hp)"
  unfolding aux_kept_def address_set_def by simp

lemma aux_kept_address_incr: "aux_kept h0 buf hp \<Longrightarrow> aux_kept h0 buf (address_incr i hp)"
  unfolding address_incr_def by (rule aux_kept_address_set)

lemma aux_kept_processBlock:
  assumes "aux_kept h0 buf hp"
  shows "aux_kept h0 buf
    (processBlock hp l r s index laneLen segmentLen lanes offset prev dataIndependent needXor)"
proof -
  have 1: "aux_kept h0 buf
     (block_address (block_address (address_incr (256 + 12) hp) 256 (2 * 256) 0 False)
        0 (2 * 256) 0 False)"
    by (intro aux_kept_block_address aux_kept_address_incr assms)
  have "aux_kept h0 buf (if index mod 128 = 0
      then block_address (block_address (address_incr (256 + 12) hp) 256 (2 * 256) 0 False)
             0 (2 * 256) 0 False
      else hp)"
    using 1 assms by (simp only: if_distrib [of "aux_kept h0 buf"] if_cancel)
  then show ?thesis
    unfolding processBlock_def Let_def case_prod_beta
    by (cases dataIndependent)
      (simp_all only: if_True if_False fst_conv snd_conv aux_kept_block_B assms)
qed

lemma aux_kept_laneSetup:
  assumes "aux_kept h0 buf hp"
  shows "aux_kept h0 buf (laneSetup ini r s l hp)"
  unfolding laneSetup_def Let_def
  by (simp only: if_distrib [of "aux_kept h0 buf"] aux_kept_block_address aux_kept_address_incr
        aux_kept_address_set assms if_cancel)

lemma aux_kept_blockStep:
  assumes "aux_kept h0 buf (fst st)"
  shows "aux_kept h0 buf (fst (blockStep ini r s l iop st))"
  unfolding blockStep_def Let_def case_prod_beta fst_conv
  by (rule aux_kept_processBlock) (rule assms)

lemma aux_kept_laneLoop:
  assumes "aux_kept h0 buf (fst st)"
  shows "aux_kept h0 buf (fst (laneLoop ini r s l st))"
  unfolding laneLoop_def Let_def case_prod_beta
  by (rule fold_invariant [where I = "\<lambda>st. aux_kept h0 buf (fst st)"])
     (simp_all only: aux_kept_blockStep fst_conv aux_kept_laneSetup assms)

lemma aux_kept_segmentLoop:
  assumes "aux_kept h0 buf (fst st)"
  shows "aux_kept h0 buf (fst (segmentLoop ini r s st))"
  unfolding segmentLoop_def Let_def case_prod_beta
  by (rule fold_invariant [where I = "\<lambda>st. aux_kept h0 buf (fst st)"])
     (simp_all only: aux_kept_laneLoop fst_conv aux_kept_address_set assms)

lemma aux_kept_passLoop:
  assumes "aux_kept h0 buf (fst st)"
  shows "aux_kept h0 buf (fst (passLoop ini r st))"
  unfolding passLoop_def Let_def case_prod_beta
  by (rule fold_invariant [where I = "\<lambda>st. aux_kept h0 buf (fst st)"])
     (simp_all only: aux_kept_segmentLoop fst_conv aux_kept_address_set assms)

lemma aux_kept_addressInit:
  assumes "H0 hp = h0" "BUF hp = buf" "A2_BUF hp = replicate 256 0"
  shows "aux_kept h0 buf (addressInit ini hp)"
proof -
  have "aux_kept h0 buf (hp\<lparr> address := replicate (3 * 256) 0 \<rparr>)"
    unfolding aux_kept_def using assms by simp
  then show ?thesis
    unfolding addressInit_def Let_def by (intro aux_kept_address_set)
qed

lemma aux_kept_filled:
  assumes "H0 hp = h0" "BUF hp = buf" "A2_BUF hp = replicate 256 0"
  shows "aux_kept h0 buf (fst (filled ini hp g))"
  unfolding filled_def
  by (rule fold_invariant [where I = "\<lambda>st. aux_kept h0 buf (fst st)"])
     (simp_all only: aux_kept_passLoop fst_conv aux_kept_addressInit [OF assms])

section \<open>The cooperative loops compute what the blocking loops compute\<close>

lemma fst_blockStepAsync:
  "fst (blockStepAsync now ini r s l iop (st, c)) = blockStep ini r s l iop st"
  by (simp add: blockStepAsync_def blockStep_def case_prod_beta Let_def)

lemma fst_laneLoopAsync: "fst (laneLoopAsync now ini r s l (st, c)) = laneLoop ini r s l st"
  unfolding laneLoopAsync_def laneLoop_def Let_def case_prod_beta fst_conv snd_conv
  by (rule fst_fold_pair) (rule fst_blockStepAsync)

lemma fst_segmentLoopAsync: "fst (segmentLoopAsync now ini r s (st, c)) = segmentLoop ini r s st"
  unfolding segmentLoopAsync_def segmentLoop_def Let_def case_prod_beta fst_conv snd_conv
  by (rule fst_fold_pair) (rule fst_laneLoopAsync)

lemma fst_passLoopAsync: "fst (passLoopAsync now ini r (st, c)) = passLoop ini r st"
  unfolding passLoopAsync_def passLoop_def Let_def case_prod_beta fst_conv snd_conv
  by (rule fst_fold_pair) (rule fst_segmentLoopAsync)

lemma fst_filledAsync: "fst (filledAsync now ini hp g) = filled ini hp g"
  unfolding filledAsync_def filled_def
  by (rule fst_fold_pair) (rule fst_passLoopAsync)

lemma argon2Async_argon2:
  "argon2Async hb now ty password salt opts =
     (case argon2 hb ty password salt opts of
        Inl e \<Rightarrow> Inl e
      | Inr (res, hp, g) \<Rightarrow>
          (case argon2Init hb password salt ty opts heap0 of
             Inl (e, hp0) \<Rightarrow> Inl e
           | Inr (ini, hp0, g0) \<Rightarrow> Inr (res, hp, g, snd (filledAsync now ini hp0 g0))))"
proof (cases "argon2Init hb password salt ty opts heap0")
  case (Inl e)
  then show ?thesis by (simp add: argon2_def argon2Async_def split: prod.splits)
next
  case (Inr x)
  obtain ini hp0 g0 where x: "x = (ini, hp0, g0)" by (cases x) auto
  note i = Inr [unfolded x]
  show ?thesis
    unfolding argon2Async_success [OF i] argon2_success [OF i] i fst_filledAsync
    by (simp only: sum.case prod.case)
qed

section \<open>The passes do not depend on the progress callback\<close>

lemma fst_blockStep_rel:
  assumes "i_type ini' = i_type ini" "i_version ini' = i_version ini"
    "i_laneLen ini' = i_laneLen ini" "i_segmentLen ini' = i_segmentLen ini"
    "i_lanes ini' = i_lanes ini"
  shows "fst (blockStep ini r s l iop (hp, g)) = fst (blockStep ini' r s l iop (hp, g'))"
  using assms
  by (simp add: blockStep_def case_prod_beta Let_def dataIndependent_of_def needXor_of_def)

lemma laneSetup_rel:
  assumes "i_type ini' = i_type ini"
  shows "laneSetup ini r s l hp = laneSetup ini' r s l hp"
  using assms by (simp add: laneSetup_def dataIndependent_of_def)

lemma fst_laneLoop_rel:
  assumes "i_type ini' = i_type ini" "i_version ini' = i_version ini"
    "i_laneLen ini' = i_laneLen ini" "i_segmentLen ini' = i_segmentLen ini"
    "i_lanes ini' = i_lanes ini"
  shows "fst (laneLoop ini r s l (hp, g)) = fst (laneLoop ini' r s l (hp, g'))"
  unfolding laneLoop_def Let_def prod.case laneSetup_rel [OF assms(1)] assms(3,4) [symmetric]
  by (rule fst_fold_rel) (rule fst_blockStep_rel [OF assms])

lemma fst_segmentLoop_rel:
  assumes "i_type ini' = i_type ini" "i_version ini' = i_version ini"
    "i_laneLen ini' = i_laneLen ini" "i_segmentLen ini' = i_segmentLen ini"
    "i_lanes ini' = i_lanes ini" "i_p ini' = i_p ini"
  shows "fst (segmentLoop ini r s (hp, g)) = fst (segmentLoop ini' r s (hp, g'))"
  unfolding segmentLoop_def Let_def prod.case assms(6)
  by (rule fst_fold_rel) (rule fst_laneLoop_rel [OF assms(1-5)])

lemma fst_passLoop_rel:
  assumes "i_type ini' = i_type ini" "i_version ini' = i_version ini"
    "i_laneLen ini' = i_laneLen ini" "i_segmentLen ini' = i_segmentLen ini"
    "i_lanes ini' = i_lanes ini" "i_p ini' = i_p ini"
  shows "fst (passLoop ini r (hp, g)) = fst (passLoop ini' r (hp, g'))"
  unfolding passLoop_def Let_def prod.case
  by (rule fst_fold_rel) (rule fst_segmentLoop_rel [OF assms])

lemma fst_filled_rel:
  assumes "i_type ini' = i_type ini" "i_version ini' = i_version ini"
    "i_laneLen ini' = i_laneLen ini" "i_segmentLen ini' = i_segmentLen ini"
    "i_lanes ini' = i_lanes ini" "i_p ini' = i_p ini" "i_t ini' = i_t ini" "i_mP ini' = i_mP ini"
  shows "fst (filled ini hp g) = fst (filled ini' hp g')"
proof -
  have "addressInit ini' hp = addressInit ini hp"
    by (simp add: addressInit_def assms)
  then show ?thesis
    unfolding filled_def assms(7)
    by (simp only:) (rule fst_fold_rel, rule fst_passLoop_rel [OF assms(1-6)])
qed

lemma returned_Async: "returned (argon2Async hb now ty password salt opts)
     = returned (argon2 hb ty password salt opts)"
proof (cases "argon2Init hb password salt ty opts heap0")
  case (Inl e)
  then show ?thesis by (simp add: argon2_def argon2Async_def returned_def split: prod.splits)
next
  case (Inr x)
  obtain ini hp0 g0 where x: "x = (ini, hp0, g0)" by (cases x) auto
  note i = Inr [unfolded x]
  show ?thesis
    unfolding argon2Async_success [OF i] argon2_success [OF i] fst_filledAsync returned_def
    by (simp only: sum.case prod.case)
qed

lemma initOpts_rel:
  assumes "cb = None \<or> cb = Some Function" "cb' = None \<or> cb' = Some Function"
  shows "initOpts (opts\<lparr> opt_asyncTick := a, opt_onProgress := cb \<rparr>)
     = (case initOpts (opts\<lparr> opt_asyncTick := a', opt_onProgress := cb' \<rparr>) of
          Inl e \<Rightarrow> Inl e
        | Inr mg \<Rightarrow> Inr (mg\<lparr> mg_asyncTick := dflt 10 a, mg_onProgress := cb \<rparr>))"
  using assms by (auto simp add: initOpts_def Let_def)

lemma returned_argon2_rel:
  assumes "cb = None \<or> cb = Some Function" "cb' = None \<or> cb' = Some Function"
  shows "returned (argon2 hb ty password salt (opts\<lparr> opt_asyncTick := a, opt_onProgress := cb \<rparr>))
       = returned (argon2 hb ty password salt (opts\<lparr> opt_asyncTick := a', opt_onProgress := cb' \<rparr>))"
proof -
  define o1 where "o1 = opts\<lparr> opt_asyncTick := a, opt_onProgress := cb \<rparr>"
  define o2 where "o2 = opts\<lparr> opt_asyncTick := a', opt_onProgress := cb' \<rparr>"
  note rel = initOpts_rel [OF assms, where opts = opts and a = a and a' = a', folded o1_def o2_def]
  consider (bad) "\<not> (isUint32 (int (length password)) \<and> isUint32 (int (length salt)) \<and> 8 \<le> length salt)"
    | (err) e where "isUint32 (int (length password))" "isUint32 (int (length salt))" "8 \<le> length salt"
        "initOpts o2 = Inl e"
    | (ok) mg where "isUint32 (int (length password))" "isUint32 (int (length salt))" "8 \<le> length salt"
        "initOpts o2 = Inr mg"
    by (cases "initOpts o2") auto
  then have "returned (argon2 hb ty password salt o1) = returned (argon2 hb ty password salt o2)"
  proof cases
    case bad
    then have "argon2Init hb password salt ty o1 heap0 = argon2Init hb password salt ty o2 heap0"
      unfolding argon2Init_def by (auto simp add: not_le)
    then show ?thesis unfolding argon2_def by (simp only:)
  next
    case err
    have "initOpts o1 = Inl e" unfolding rel err(4) by simp
    then have "argon2Init hb password salt ty o1 heap0 = argon2Init hb password salt ty o2 heap0"
      unfolding argon2Init_def using err(4) by (simp only: sum.case)
    then show ?thesis unfolding argon2_def by (simp only:)
  next
    case ok
    define mg1 where "mg1 = mg\<lparr> mg_asyncTick := dflt 10 a, mg_onProgress := cb \<rparr>"
    have o1: "initOpts o1 = Inr mg1" unfolding rel ok(4) mg1_def by simp
    have s: "mg_p mg1 = mg_p mg" "mg_m mg1 = mg_m mg" "mg_t mg1 = mg_t mg"
      "mg_dkLen mg1 = mg_dkLen mg" "mg_version mg1 = mg_version mg" "mg_maxmem mg1 = mg_maxmem mg"
      "mg_key mg1 = mg_key mg" "mg_personalization mg1 = mg_personalization mg"
      by (simp_all add: mg1_def)
    note v1 = argon2Init_valid [OF ok(1-3) o1, of hb ty heap0, unfolded s]
    note v2 = argon2Init_valid [OF ok(1-3) ok(4), of hb ty heap0]
    show ?thesis
    proof (cases "\<not> isUint32 (mg_maxmem mg) \<or> fst (geometry (mg_p mg) (mg_m mg)) * 256 > mg_maxmem mg")
      case True
      have "argon2Init hb password salt ty o1 heap0 = argon2Init hb password salt ty o2 heap0"
        unfolding v1 v2 using True by (simp only: if_True)
      then show ?thesis unfolding argon2_def by (simp only:)
    next
      case False
      obtain hp0 where
        i1: "argon2Init hb password salt ty o1 heap0 = Inr (init_of ty mg1, hp0, \<lparr> blockCnt = 0, reported = [] \<rparr>)"
        and i2: "argon2Init hb password salt ty o2 heap0 = Inr (init_of ty mg, hp0, \<lparr> blockCnt = 0, reported = [] \<rparr>)"
        unfolding v1 v2 using False by (simp only: if_False)
      have f: "fst (filled (init_of ty mg1) hp0 \<lparr> blockCnt = 0, reported = [] \<rparr>)
             = fst (filled (init_of ty mg) hp0 \<lparr> blockCnt = 0, reported = [] \<rparr>)"
        by (rule fst_filled_rel) (simp_all only: init_of_simps s)
      show ?thesis
        unfolding argon2_success [OF i1] argon2_success [OF i2] returned_def f
        by (simp only: sum.case prod.case init_of_simps s)
    qed
  qed
  then show ?thesis unfolding o1_def o2_def .
qed

section \<open>Blocking and cooperative entry points\<close>

text \<open>
  Claim C5. For the same password, salt, variant and options the cooperative entry point
  returns what the blocking one returns, whatever \<open>Date.now()\<close> reads; and what either
  returns is the same for every \<open>asyncTick\<close> and with or without an \<open>onProgress\<close>
  callback.
\<close>

theorem blocking_cooperative_same:
  "returned (argon2Async hb now ty password salt opts) = returned (argon2 hb ty password salt opts)
   \<and> returned (argon2 hb ty password salt (opts\<lparr> opt_asyncTick := a, opt_onProgress := Some Function \<rparr>))
     = returned (argon2 hb ty password salt (opts\<lparr> opt_asyncTick := a', opt_onProgress := None \<rparr>))
   \<and> returned (argon2Async hb now ty password salt
        (opts\<lparr> opt_asyncTick := a, opt_onProgress := Some Function \<rparr>))
     = returned (argon2Async hb now' ty password salt
        (opts\<lparr> opt_asyncTick := a', opt_onProgress := None \<rparr>))
   \<and> returned (argon2dAsync hb now password salt opts) = returned (argon2d hb password salt opts)
   \<and> returned (argon2iAsync hb now password salt opts) = returned (argon2i hb password salt opts)
   \<and> returned (argon2idAsync hb now password salt opts) = returned (argon2id hb password salt opts)"
proof -
  have r: "returned (argon2 hb ty password salt (opts\<lparr> opt_asyncTick := a, opt_onProgress := Some Function \<rparr>))
     = returned (argon2 hb ty password salt (opts\<lparr> opt_asyncTick := a', opt_onProgress := None \<rparr>))"
    by (rule returned_argon2_rel) simp_all
  show ?thesis
    unfolding argon2dAsync_def argon2iAsync_def argon2idAsync_def argon2d_def argon2i_def
      argon2id_def returned_Async
    using r by (simp only: simp_thms)
qed

section \<open>Zeroisation\<close>

lemma argon2Init_InrE:
  assumes "argon2Init hb password salt ty opts hp = Inr x"
  obtains mg where "isUint32 (int (length password))" "isUint32 (int (length salt))"
    "8 \<le> length salt" "initOpts opts = Inr mg"
proof -
  have 1: "isUint32 (int (length password))"
    using assms unfolding argon2Init_def by (auto split: if_splits)
  have 2: "isUint32 (int (length salt))" "8 \<le> length salt"
    using assms unfolding argon2Init_def by (auto split: if_splits)
  have "\<exists>mg. initOpts opts = Inr mg"
  proof (cases "initOpts opts")
    case (Inl e)
    then have "argon2Init hb password salt ty opts hp = Inl (e, hp)"
      unfolding argon2Init_def using 1 2 AT_range [of ty] by (simp add: not_less)
    with assms show ?thesis by simp
  next
    case (Inr mg)
    then show ?thesis by blast
  qed
  with 1 2 that show thesis by blast
qed

lemma length_snd_firstBlocks: "length (snd (firstBlocks hb laneLen l BH)) = length (snd BH)"
  unfolding firstBlocks_def Let_def case_prod_beta by simp

lemma length_snd_fold_firstBlocks:
  "length (snd (fold (firstBlocks hb laneLen) ls BH)) = length (snd BH)"
  by (induction ls arbitrary: BH) (simp_all add: length_snd_firstBlocks)

lemma fill0_replicate: "fill0 xs = replicate (length xs) 0"
  by (simp add: fill0_def map_replicate_const)

lemma argon2Init_heap:
  assumes "argon2Init hb password salt ty opts heap0 = Inr (ini, hp0, g0)"
  shows "H0 hp0 = replicate 18 0" "BUF hp0 = replicate 1 0" "A2_BUF hp0 = replicate 256 0"
proof -
  from assms obtain mg where v: "isUint32 (int (length password))" "isUint32 (int (length salt))"
    "8 \<le> length salt" "initOpts opts = Inr mg"
    by (rule argon2Init_InrE)
  note e = assms [unfolded argon2Init_valid [OF v]]
  have n: "\<not> (\<not> isUint32 (mg_maxmem mg) \<or> mg_maxmem mg < fst (geometry (mg_p mg) (mg_m mg)) * 256)"
    using e by (auto split: if_splits)
  note e' = e [unfolded if_not_P [OF n] sum.inject prod.inject]
  have hp0: "hp0 = heap0\<lparr> BUF := fill0 [word_of_int (int (length (toBytesOptional (mg_personalization mg))))],
           H0 := fill0 (snd (fold (firstBlocks hb (fst (snd (geometry (mg_p mg) (mg_m mg)))))
                   [0..<nat (mg_p mg)]
                   (replicate (nat (fst (geometry (mg_p mg) (mg_m mg)) * 256)) 0,
                    u32 (blake2b hb 64 (H0_input (mg_p mg) (mg_dkLen mg) (mg_m mg) (mg_t mg)
                       (mg_version mg) ty password salt (toBytesOptional (mg_key mg))
                       (toBytesOptional (mg_personalization mg)))) @ [0, 0]))),
           B := fst (fold (firstBlocks hb (fst (snd (geometry (mg_p mg) (mg_m mg)))))
                   [0..<nat (mg_p mg)]
                   (replicate (nat (fst (geometry (mg_p mg) (mg_m mg)) * 256)) 0,
                    u32 (blake2b hb 64 (H0_input (mg_p mg) (mg_dkLen mg) (mg_m mg) (mg_t mg)
                       (mg_version mg) ty password salt (toBytesOptional (mg_key mg))
                       (toBytesOptional (mg_personalization mg)))) @ [0, 0])) \<rparr>"
    using e' by (simp only:)
  show "H0 hp0 = replicate 18 0"
    unfolding hp0
    by (simp add: fill0_replicate length_snd_fold_firstBlocks length_u32 length_blake2b)
  show "BUF hp0 = replicate 1 0"
    unfolding hp0 by (simp add: fill0_replicate)
  show "A2_BUF hp0 = replicate 256 0"
    unfolding hp0 by (simp add: heap0_def)
qed

lemma argon2Output_heap:
  "snd (argon2Output hb hp p laneLen dkLen)
     = hp\<lparr> B_final := replicate 256 0 \<rparr>"
proof -
  have "length (fold (\<lambda>l bf. fold (\<lambda>j bf.
                  bf[j := bf ! j XOR B hp ! nat (256 * (laneLen * int l + laneLen - 1) + int j)])
                [0..<256] bf) ls bf0) = length bf0" for ls bf0
    by (rule length_fold_same) (simp add: length_fold_same)
  then show ?thesis
    unfolding argon2Output_def Let_def snd_conv fill0_replicate by simp
qed

lemma zeroed_after_fill:
  assumes "argon2Init hb password salt ty opts heap0 = Inr (ini, hp0, g0)"
  defines "hpF \<equiv> fst (filled ini hp0 g0)"
  defines "hp \<equiv> snd (argon2Output hb (hpF\<lparr> address := fill0 (address hpF) \<rparr>)
                  (i_p ini) (i_laneLen ini) (i_dkLen ini))"
  shows "H0 hp = replicate 18 0 \<and> BUF hp = replicate 1 0 \<and> address hp = replicate (3 * 256) 0
       \<and> A2_BUF hp = replicate 256 0 \<and> B_final hp = replicate 256 0"
proof -
  note h = argon2Init_heap [OF assms(1)]
  have "aux_kept (H0 hp0) (BUF hp0) hpF"
    unfolding hpF_def by (rule aux_kept_filled) (simp_all add: h)
  then have k: "H0 hpF = replicate 18 0" "BUF hpF = replicate 1 0" "length (address hpF) = 3 * 256"
    "A2_BUF hpF = replicate 256 0"
    unfolding aux_kept_def h by simp_all
  show ?thesis
    unfolding hp_def argon2Output_heap using k by (simp add: fill0_replicate)
qed

text \<open>
  Claim C7. When a call of \<open>argon2\<close> (or of \<open>argon2Async\<close>) has returned its bytes, \<open>H0\<close>
  and \<open>BUF\<close>, the \<open>address\<close> triple, the scratch block \<open>A2_BUF\<close> and \<open>B_final\<close> hold
  zeros only.
\<close>

theorem buffers_zeroed:
  assumes "argon2 hb ty password salt opts = Inr (res, hp, g)
         \<or> argon2Async hb now ty password salt opts = Inr (res, hp, g, c)"
  shows "H0 hp = replicate 18 0 \<and> BUF hp = replicate 1 0 \<and> address hp = replicate (3 * 256) 0
       \<and> A2_BUF hp = replicate 256 0 \<and> B_final hp = replicate 256 0"
proof -
  have "\<exists>x. argon2Init hb password salt ty opts heap0 = Inr x"
    using assms unfolding argon2_def argon2Async_def by (auto split: sum.splits)
  then obtain ini hp0 g0 where i: "argon2Init hb password salt ty opts heap0 = Inr (ini, hp0, g0)"
    by (metis prod_cases3)
  have "hp = snd (argon2Output hb ((fst (filled ini hp0 g0))\<lparr> address := fill0 (address (fst (filled ini hp0 g0))) \<rparr>)
                  (i_p ini) (i_laneLen ini) (i_dkLen ini))"
    using assms unfolding argon2_success [OF i] argon2Async_success [OF i] fst_filledAsync
    by auto
  then show ?thesis using zeroed_after_fill [OF i] by (simp only:)
qed

lemma initOpts_min:
  "initOpts min_opts
     = Inr \<lparr> mg_t = 1, mg_m = 8, mg_p = 1, mg_version = 0x13, mg_key = None,
             mg_personalization = None, mg_dkLen = 32, mg_asyncTick = 10,
             mg_maxmem = 2 ^ 32 - 1, mg_onProgress = None \<rparr>"
  by (simp add: initOpts_def min_opts_def dflt_def isUint32_def maxUint32_def Let_def)

lemma argon2_min_succeeds: "\<exists>res hp g. argon2 hb ty [] salt8 min_opts = Inr (res, hp, g)"
proof -
  have "\<exists>x. argon2Init hb [] salt8 ty min_opts heap0 = Inr x"
    using argon2Init_Inr_init_of [OF empty_password salt8_ok initOpts_min, of hb ty heap0]
    by (simp only: Merged.simps geometry_min fst_conv isUint32_default_maxmem) blast
  then have "\<exists>x. argon2 hb ty [] salt8 min_opts = Inr x" unfolding argon2_Inr_iff .
  then show ?thesis by (metis prod_cases3)
qed

theorem buffers_zeroed_witness:
  "\<exists>res hp g. argon2 zero_hash Argon2id [] salt8 min_opts = Inr (res, hp, g)
     \<and> H0 hp = replicate 18 0 \<and> BUF hp = replicate 1 0 \<and> address hp = replicate (3 * 256) 0
     \<and> A2_BUF hp = replicate 256 0 \<and> B_final hp = replicate 256 0"
proof -
  obtain res hp g where e: "argon2 zero_hash Argon2id [] salt8 min_opts = Inr (res, hp, g)"
    using argon2_min_succeeds by blast
  then have "argon2 zero_hash Argon2id [] salt8 min_opts = Inr (res, hp, g)
         \<or> argon2Async zero_hash (\<lambda>k. 0) Argon2id [] salt8 min_opts = Inr (res, hp, g, undefined)"
    by (rule disjI1)
  from buffers_zeroed [OF this] e show ?thesis by blast
qed

section \<open>The order of the blocks\<close>

lemma upt_as_map: "[a..<b] = map (\<lambda>k. a + k) [0..<b - a]"
  by (cases "a \<le> b") (simp_all add: map_add_upt add.commute)

lemma lane_steps:
  "map (\<lambda>(index, offset, prev). (r, s, l, index, offset, prev)) (laneBlocks r s l laneLen segmentLen)
     = map (step_at laneLen segmentLen r s l) [laneStart r s..<nat segmentLen]"
  unfolding laneBlocks_def indexLoop_def Let_def
  by (subst upt_as_map [of "laneStart r s"]) (simp add: step_at_def Let_def)

lemma traversal_steps:
  "traversal t p laneLen segmentLen =
     concat (map (\<lambda>r.
       concat (map (\<lambda>s.
         concat (map (\<lambda>l.
           map (step_at laneLen segmentLen r s l) [laneStart r s..<nat segmentLen])
         [0..<nat p]))
       [0..<4]))
     [0..<nat t])"
  unfolding traversal_def lane_steps ARGON2_SYNC_POINTS_def by simp

lemma concat_map_split:
  assumes "concat (map f xs) = pre @ x # post"
  shows "\<exists>xs1 z xs2 pre' post'. xs = xs1 @ z # xs2 \<and> f z = pre' @ x # post'
           \<and> pre = concat (map f xs1) @ pre'"
  using assms
proof (induction xs arbitrary: pre)
  case Nil
  then show ?case by simp
next
  case (Cons a xs)
  then have "f a @ concat (map f xs) = pre @ x # post" by simp
  then obtain us where
    "(f a = pre @ us \<and> us @ concat (map f xs) = x # post)
      \<or> (f a @ us = pre \<and> concat (map f xs) = us @ x # post)"
    unfolding append_eq_append_conv2 by blast
  then consider (here) us' where "f a = pre @ x # us'"
    | (later) us where "pre = f a @ us" "concat (map f xs) = us @ x # post"
  proof (elim disjE conjE)
    assume a: "f a = pre @ us" "us @ concat (map f xs) = x # post"
    show ?thesis
    proof (cases us)
      case Nil
      with a have "pre = f a @ []" "concat (map f xs) = [] @ x # post" by simp_all
      then show ?thesis by (rule that(2))
    next
      case (Cons u us')
      with a have "f a = pre @ x # us'" by simp
      then show ?thesis by (rule that(1))
    qed
  next
    assume "f a @ us = pre" "concat (map f xs) = us @ x # post"
    then show ?thesis using that(2) by blast
  qed
  then show ?case
  proof cases
    case here
    have "a # xs = [] @ a # xs" "pre = concat (map f []) @ pre" by simp_all
    with here show ?thesis by blast
  next
    case later
    from Cons.IH [OF later(2)] obtain xs1 z xs2 pre' post' where
      "xs = xs1 @ z # xs2" "f z = pre' @ x # post'" "us = concat (map f xs1) @ pre'"
      by blast
    then have "a # xs = (a # xs1) @ z # xs2" "pre = concat (map f (a # xs1)) @ pre'"
      using later(1) by simp_all
    with \<open>f z = pre' @ x # post'\<close> show ?thesis by blast
  qed
qed

lemma upt_split:
  assumes "[a..<b] = xs1 @ z # xs2"
  shows "xs1 = [a..<z] \<and> a \<le> z \<and> z < b"
proof -
  have len: "length xs1 < b - a"
    using arg_cong [OF assms, of length] by simp
  have "z = [a..<b] ! length xs1" unfolding assms by simp
  then have z: "z = a + length xs1" using len by simp
  have "xs1 = take (length xs1) [a..<b]" unfolding assms by simp
  also have "\<dots> = [a..<a + length xs1]" using len by (simp add: take_upt)
  finally show ?thesis using z len by simp
qed

lemma concat_map_upt_split:
  assumes "concat (map f [a..<b]) = pre @ x # post"
  obtains z pre' post' where "a \<le> z" "z < b" "f z = pre' @ x # post'"
    "pre = concat (map f [a..<z]) @ pre'"
proof -
  from concat_map_split [OF assms] obtain xs1 z xs2 pre' post' where
    s: "[a..<b] = xs1 @ z # xs2" "f z = pre' @ x # post'" "pre = concat (map f xs1) @ pre'"
    by blast
  from upt_split [OF s(1)] s(2,3) that show thesis by blast
qed

lemma map_upt_split:
  assumes "map f [a..<b] = pre @ x # post"
  obtains z where "a \<le> z" "z < b" "x = f z" "pre = map f [a..<z]"
proof -
  from assms obtain xs1 z xs2 where
    s: "[a..<b] = xs1 @ z # xs2" "pre = map f xs1" "x = f z"
    unfolding map_eq_append_conv by (auto simp add: map_eq_Cons_conv)
  from upt_split [OF s(1)] s(2,3) that show thesis by blast
qed

text \<open>
  A step of the traversal has its coordinates in range, and every step at coordinates
  that come before it in the order of the loops stands before it.
\<close>

lemma traversal_prefix:
  assumes "traversal t p laneLen segmentLen = pre @ x # post"
  obtains r s l index where
    "x = step_at laneLen segmentLen r s l index"
    "r < nat t" "s < 4" "l < nat p" "laneStart r s \<le> index" "index < nat segmentLen"
    "\<And>r' s' l' i'. s' < 4 \<Longrightarrow> l' < nat p \<Longrightarrow> laneStart r' s' \<le> i' \<Longrightarrow> i' < nat segmentLen \<Longrightarrow>
       r' < r \<or> (r' = r \<and> (s' < s \<or> (s' = s \<and> (l' < l \<or> (l' = l \<and> i' < index))))) \<Longrightarrow>
       step_at laneLen segmentLen r' s' l' i' \<in> set pre"
proof -
  let ?L = "\<lambda>r s l. map (step_at laneLen segmentLen r s l) [laneStart r s..<nat segmentLen]"
  let ?S = "\<lambda>r s. concat (map (?L r s) [0..<nat p])"
  let ?R = "\<lambda>r. concat (map (?S r) [0..<4])"
  from assms have "concat (map ?R [0..<nat t]) = pre @ x # post"
    unfolding traversal_steps .
  then obtain r pre1 post1 where r: "r < nat t" "?R r = pre1 @ x # post1"
    "pre = concat (map ?R [0..<r]) @ pre1"
    by (rule concat_map_upt_split)
  from r(2) obtain s pre2 post2 where s: "s < 4" "?S r s = pre2 @ x # post2"
    "pre1 = concat (map (?S r) [0..<s]) @ pre2"
    by (rule concat_map_upt_split)
  from s(2) obtain l pre3 post3 where l: "l < nat p" "?L r s l = pre3 @ x # post3"
    "pre2 = concat (map (?L r s) [0..<l]) @ pre3"
    by (rule concat_map_upt_split)
  from l(2) obtain index where i: "laneStart r s \<le> index" "index < nat segmentLen"
    "x = step_at laneLen segmentLen r s l index"
    "pre3 = map (step_at laneLen segmentLen r s l) [laneStart r s..<index]"
    by (rule map_upt_split)
  have pre: "set pre = (\<Union>r'\<in>{0..<r}. set (?R r')) \<union> (\<Union>s'\<in>{0..<s}. set (?S r s'))
      \<union> (\<Union>l'\<in>{0..<l}. set (?L r s l')) \<union> step_at laneLen segmentLen r s l ` {laneStart r s..<index}"
    unfolding r(3) s(3) l(3) i(4) by (simp add: Un_assoc)
  have inL: "step_at laneLen segmentLen r' s' l' i' \<in> set (?L r' s' l')"
    if "laneStart r' s' \<le> i'" "i' < nat segmentLen" for r' s' l' i'
    using that by simp
  have inS: "step_at laneLen segmentLen r' s' l' i' \<in> set (?S r' s')"
    if "l' < nat p" "laneStart r' s' \<le> i'" "i' < nat segmentLen" for r' s' l' i'
    using that by force
  have inR: "step_at laneLen segmentLen r' s' l' i' \<in> set (?R r')"
    if "s' < 4" "l' < nat p" "laneStart r' s' \<le> i'" "i' < nat segmentLen" for r' s' l' i'
    using that by force
  show thesis
  proof (rule that [OF i(3) r(1) s(1) l(1) i(1) i(2)])
    fix r' s' l' i'
    assume b: "s' < 4" "l' < nat p" "laneStart r' s' \<le> i'" "i' < nat segmentLen"
      and o: "r' < r \<or> (r' = r \<and> (s' < s \<or> (s' = s \<and> (l' < l \<or> (l' = l \<and> i' < index)))))"
    from o consider "r' < r" | "r' = r" "s' < s" | "r' = r" "s' = s" "l' < l"
      | "r' = r" "s' = s" "l' = l" "i' < index" by blast
    then show "step_at laneLen segmentLen r' s' l' i' \<in> set pre"
    proof cases
      case 1
      have "step_at laneLen segmentLen r' s' l' i' \<in> (\<Union>r'\<in>{0..<r}. set (?R r'))"
        by (rule UN_I [of r']) (use 1 in simp, rule inR [OF b])
      then show ?thesis unfolding pre by blast
    next
      case 2
      have "step_at laneLen segmentLen r s' l' i' \<in> (\<Union>s'\<in>{0..<s}. set (?S r s'))"
        by (rule UN_I [of s']) (use 2 in simp, rule inS [OF b(2-4) [unfolded 2(1)]])
      then show ?thesis unfolding pre 2(1) by blast
    next
      case 3
      have "step_at laneLen segmentLen r s l' i' \<in> (\<Union>l'\<in>{0..<l}. set (?L r s l'))"
        by (rule UN_I [of l']) (use 3 in simp, rule inL [OF b(3,4) [unfolded 3(1,2)]])
      then show ?thesis unfolding pre 3(1,2) by blast
    next
      case 4
      have "step_at laneLen segmentLen r s l i' \<in> step_at laneLen segmentLen r s l ` {laneStart r s..<index}"
        by (rule imageI) (use 4 b(3) in simp)
      then show ?thesis unfolding pre 4(1-3) by blast
    qed
  qed
qed

section \<open>The reference position\<close>

lemma mul_fst_int32: "ToInt32 (fst (mul a b)) = fst (mul a b)"
  unfolding mul_def Let_def fst_conv js_or_zero by (rule ToInt32_idem)

lemma mul_fst_value:
  "fst (mul a b) = ToInt32 ((ToUint32 a * ToUint32 b) div 0x100000000)"
proof -
  have "fst (mul a b) = ToInt32 (fst (mul a b))" by (rule mul_fst_int32 [symmetric])
  also have "\<dots> = ToInt32 (ToUint32 (fst (mul a b)))"
    by (rule ToInt32_cong) (rule ToUint32_cong_mod [symmetric])
  finally show ?thesis unfolding mul_halves(1) .
qed

lemma mul_high_bound:
  assumes "1 \<le> a" "a < 0x80000000"
  shows "0 \<le> fst (mul a b)" "fst (mul a b) < a"
proof -
  define u where "u = ToUint32 b"
  define q where "q = (a * u) div 0x100000000"
  have u: "0 \<le> u" "u < 0x100000000" unfolding u_def by (rule ToUint32_bounds)+
  have a: "ToUint32 a = a" using assms by (intro ToUint32_small) simp_all
  have "0 \<le> a * u" using assms(1) u(1) by simp
  then have q0: "0 \<le> q" unfolding q_def
    by (simp only: pos_imp_zdiv_nonneg_iff [of 4294967296] zero_less_numeral)
  have "a * u < a * 0x100000000"
    by (rule mult_strict_left_mono) (use assms(1) u(2) in simp_all)
  then have qa: "q < a" unfolding q_def by (intro div_less_int) simp_all
  then have "q < 0x80000000" using assms(2) by linarith
  with q0 have "ToInt32 q = q" by (rule ToInt32_small)
  then have "fst (mul a b) = q"
    unfolding mul_fst_value a u_def [symmetric] q_def [symmetric] .
  with q0 qa show "0 \<le> fst (mul a b)" "fst (mul a b) < a" by simp_all
qed

lemma js_rem_nonneg: "0 \<le> x \<Longrightarrow> js_rem x L = x mod \<bar>L\<bar>"
  unfolding js_rem_def by (cases "x = 0") simp_all

lemma mod_window:
  fixes L :: int
  assumes "0 \<le> x" "x < 2 * L"
  shows "x mod L = (if x < L then x else x - L)"
proof (cases "x < L")
  case True
  with assms(1) show ?thesis by simp
next
  case False
  have "x = 1 * L + (x - L)" by simp
  moreover have "0 \<le> x - L" "x - L < L" using False assms(2) by simp_all
  ultimately have "x mod L = x - L" by (rule divmod_unique_int)
  with False show ?thesis by simp
qed

lemma indexAlpha_rel:
  fixes S L r s index :: int and same :: bool
  assumes S: "2 \<le> S" "L = 4 * S" "L < 0x80000000"
    and s: "s = 0 \<or> s = 1 \<or> s = 2 \<or> s = 3"
    and i: "0 \<le> index" "index < S"
    and first: "r = 0 \<and> s = 0 \<longrightarrow> 2 \<le> index"
  defines "area \<equiv>
           (if r = 0
            then (if s = 0 then index - 1
                  else if same then s * S + index - 1
                  else s * S + (if index = 0 then - 1 else 0))
            else if same then L - S + index - 1
            else L - S + (if index = 0 then - 1 else 0))"
  defines "startPos \<equiv> (if r \<noteq> 0 \<and> s \<noteq> 3 then (s + 1) * S else 0)"
  shows "\<exists>rel. 0 \<le> rel \<and> rel < area
           \<and> indexAlpha r s L S index randL same
               = (if startPos + rel < L then startPos + rel else startPos + rel - L)"
proof -
  have a1: "1 \<le> area" unfolding area_def using S s i first by (elim disjE) auto
  have a2: "area \<le> L" unfolding area_def using S s i first by (elim disjE) auto
  have sp: "0 \<le> startPos" "startPos \<le> L" unfolding startPos_def using S s by (elim disjE; simp)+
  define y where "y = fst (mul area (fst (mul randL randL)))"
  have "area < 0x80000000" using a2 S(3) by linarith
  from mul_high_bound [OF a1 this] have y: "0 \<le> y" "y < area" unfolding y_def by simp_all
  define rel where "rel = area - 1 - y"
  have rel: "0 \<le> rel" "rel < area" unfolding rel_def using y by simp_all
  have x: "0 \<le> startPos + rel" "startPos + rel < 2 * L" using sp rel a2 by simp_all
  have L: "\<bar>L\<bar> = L" using S by simp
  have "indexAlpha r s L S index randL same = js_rem (startPos + rel) L"
    unfolding indexAlpha_def Let_def ARGON2_SYNC_POINTS_def area_def startPos_def rel_def y_def
    by simp
  also have "\<dots> = (startPos + rel) mod L" using js_rem_nonneg [OF x(1), of L] L by simp
  also have "\<dots> = (if startPos + rel < L then startPos + rel else startPos + rel - L)"
    using x by (rule mod_window)
  finally show ?thesis using rel by blast
qed

lemma indexAlpha_window:
  fixes S L r s index randL :: int and same :: bool
  assumes S: "2 \<le> S" "L = 4 * S" "L < 0x80000000"
    and s: "s = 0 \<or> s = 1 \<or> s = 2 \<or> s = 3"
    and i: "0 \<le> index" "index < S"
    and first: "r = 0 \<and> s = 0 \<longrightarrow> 2 \<le> index"
  defines "pos \<equiv> indexAlpha r s L S index randL same"
  shows "0 \<le> pos" "pos < L"
    and "r = 0 \<Longrightarrow> s = 0 \<or> same \<Longrightarrow> pos + 2 \<le> s * S + index"
    and "r = 0 \<Longrightarrow> s \<noteq> 0 \<Longrightarrow> \<not> same \<Longrightarrow> pos < s * S"
    and "r \<noteq> 0 \<Longrightarrow> pos < s * S \<or> (s + 1) * S \<le> pos \<or> (same \<and> pos + 2 \<le> s * S + index)"
    and "r \<noteq> 0 \<Longrightarrow> same \<Longrightarrow> pos \<noteq> (if s = 0 \<and> index = 0 then L - 1 else s * S + index - 1)"
proof -
  from indexAlpha_rel [OF S s i first, of same randL] obtain rel where
    rel: "0 \<le> rel"
      "rel < (if r = 0
            then (if s = 0 then index - 1
                  else if same then s * S + index - 1
                  else s * S + (if index = 0 then - 1 else 0))
            else if same then L - S + index - 1
            else L - S + (if index = 0 then - 1 else 0))"
    and pos: "pos = (if (if r \<noteq> 0 \<and> s \<noteq> 3 then (s + 1) * S else 0) + rel < L
                     then (if r \<noteq> 0 \<and> s \<noteq> 3 then (s + 1) * S else 0) + rel
                     else (if r \<noteq> 0 \<and> s \<noteq> 3 then (s + 1) * S else 0) + rel - L)"
    unfolding pos_def by blast
  from s consider "s = 0" | "s = 1" | "s = 2" | "s = 3" by blast
  then have all: "0 \<le> pos \<and> pos < L
     \<and> (r = 0 \<longrightarrow> s = 0 \<or> same \<longrightarrow> pos + 2 \<le> s * S + index)
     \<and> (r = 0 \<longrightarrow> s \<noteq> 0 \<longrightarrow> \<not> same \<longrightarrow> pos < s * S)
     \<and> (r \<noteq> 0 \<longrightarrow> pos < s * S \<or> (s + 1) * S \<le> pos \<or> (same \<and> pos + 2 \<le> s * S + index))
     \<and> (r \<noteq> 0 \<longrightarrow> same \<longrightarrow> pos \<noteq> (if s = 0 \<and> index = 0 then L - 1 else s * S + index - 1))"
  proof cases
    case 1
    show ?thesis using rel pos S i first unfolding 1 by (auto split: if_splits)
  next
    case 2
    show ?thesis using rel pos S i first unfolding 2 by (auto split: if_splits)
  next
    case 3
    show ?thesis using rel pos S i first unfolding 3 by (auto split: if_splits)
  next
    case 4
    show ?thesis using rel pos S i first unfolding 4 by (auto split: if_splits)
  qed
  from all show "0 \<le> pos" "pos < L" by simp_all
  from all show "r = 0 \<Longrightarrow> s = 0 \<or> same \<Longrightarrow> pos + 2 \<le> s * S + index" by blast
  from all show "r = 0 \<Longrightarrow> s \<noteq> 0 \<Longrightarrow> \<not> same \<Longrightarrow> pos < s * S" by blast
  from all show "r \<noteq> 0 \<Longrightarrow> pos < s * S \<or> (s + 1) * S \<le> pos \<or> (same \<and> pos + 2 \<le> s * S + index)"
    by blast
  from all show "r \<noteq> 0 \<Longrightarrow> same \<Longrightarrow> pos \<noteq> (if s = 0 \<and> index = 0 then L - 1 else s * S + index - 1)"
    by blast
qed

section \<open>The reference block\<close>

lemma geometry_valid:
  assumes "1 \<le> p" "8 * p \<le> m" "geometry p m = (mP, L, S)"
  shows "2 \<le> S" "L = 4 * S" "mP = p * L"
proof -
  define q where "q = m div (4 * p)"
  have p0: "0 < 4 * p" "p \<noteq> 0" using assms(1) by simp_all
  have "(2 * (4 * p)) div (4 * p) \<le> m div (4 * p)"
    by (rule zdiv_mono1) (use assms(1,2) in simp_all)
  moreover have "(2 * (4 * p)) div (4 * p) = 2" using p0(1) by simp
  ultimately have q: "2 \<le> q" unfolding q_def by simp
  have mP: "mP = 4 * p * q" and L: "L = 4 * q" and S0: "S = L div 4"
    using assms(3) p0(2) unfolding geometry_def Let_def ARGON2_SYNC_POINTS_def q_def by auto
  then have S: "S = q" by simp
  show "2 \<le> S" using q S by simp
  show "L = 4 * S" using L S by simp
  show "mP = p * L" using mP L by simp
qed

lemma lane_separate:
  fixes L :: int
  assumes "0 \<le> a" "a < L" "0 \<le> b" "b < L" "L * x + a = L * y + b"
  shows "x = y \<and> a = b"
proof -
  have "(L * x + a) div L = x" "(L * x + a) mod L = a"
    by (rule divmod_unique_int [of _ x L a]; use assms in \<open>simp add: mult.commute\<close>)+
  moreover have "(L * y + b) div L = y" "(L * y + b) mod L = b"
    by (rule divmod_unique_int [of _ y L b]; use assms in \<open>simp add: mult.commute\<close>)+
  ultimately show ?thesis using assms(5) by simp
qed

lemma step_at_coords:
  assumes "(r, s, l, index, offset, prev) = step_at L S r' s' l' i'"
  shows "r' = r" "s' = s" "l' = l" "i' = index"
  using assms unfolding step_at_def Let_def by simp_all

lemma step_at_offset:
  assumes "laneStart r s \<le> index"
  shows "step_offset (step_at L S r s l index) = int l * L + int s * S + int index"
  using assms unfolding step_offset_def step_at_def Let_def by simp

lemma step_at_prev:
  assumes "2 \<le> S" "L = 4 * S" "s < 4" "laneStart r s \<le> index" "index < nat S"
    and "(r, s, l, index, offset, prev) = step_at L S r s l index"
  shows "offset = int l * L + int s * S + int index"
    and "prevBlock offset L prev
          = L * int l + (if int s = 0 \<and> int index = 0 then L - 1 else int s * S + int index - 1)"
proof -
  define c where "c = int s * S + int index"
  have s: "int s = 0 \<or> int s = 1 \<or> int s = 2 \<or> int s = 3" using assms(3) by auto
  have c: "0 \<le> c" "c < L" unfolding c_def using s assms(1,2,5) by (elim disjE; simp)+
  have L: "0 < L" "\<bar>L\<bar> = L" using assms(1,2) by simp_all
  show off: "offset = int l * L + int s * S + int index"
    using assms(4,6) unfolding step_at_def Let_def by simp
  then have off': "offset = L * int l + c" unfolding c_def by simp
  have "0 \<le> L * int l" using L(1) by simp
  then have o0: "0 \<le> offset" unfolding off' using c(1) by linarith
  have "offset = int l * L + c" unfolding off' by simp
  then have "offset mod L = c" using c by (rule divmod_unique_int)
  then have rem: "js_rem offset L = c" using js_rem_nonneg [OF o0, of L] L(2) by simp
  show "prevBlock offset L prev
          = L * int l + (if int s = 0 \<and> int index = 0 then L - 1 else int s * S + int index - 1)"
  proof (cases "int s = 0 \<and> int index = 0")
    case True
    then have z: "s = 0" "index = 0" by simp_all
    then have st: "laneStart r 0 = 0" using assms(4) by simp
    have "js_rem (L * int l) L = 0" unfolding js_rem_def by (cases "L * int l = 0") simp_all
    then have "prev = L * int l + L - 1"
      using assms(6) unfolding step_at_def Let_def z st by (simp add: mult.commute)
    moreover have "c = 0" unfolding c_def z by simp
    ultimately show ?thesis unfolding prevBlock_def rem using True by simp
  next
    case False
    then have "c \<noteq> 0" unfolding c_def using assms(1) s
      by (elim disjE) auto
    then show ?thesis unfolding prevBlock_def rem using False off' c_def by auto
  qed
qed

lemma earlier_kind_step_at:
  "earlier_kind r s l index (step_at L S r' s' l' i')
     = ((r' = r \<and> s' < s) \<or> (r' = r \<and> s' = s \<and> l' = l \<and> i' < index) \<or> (r' + 1 = r \<and> s < s'))"
  unfolding earlier_kind_def step_at_def Let_def by simp

lemma earlier_step:
  assumes P: "\<And>r' s' l' i'. s' < 4 \<Longrightarrow> l' < nat p \<Longrightarrow> laneStart r' s' \<le> i' \<Longrightarrow> i' < nat S \<Longrightarrow>
       r' < r \<or> (r' = r \<and> (s' < s \<or> (s' = s \<and> (l' < l \<or> (l' = l \<and> i' < index))))) \<Longrightarrow>
       step_at L S r' s' l' i' \<in> set pre"
    and lam: "0 \<le> lam" "lam < p"
    and k: "0 \<le> kI" "kI < 4"
    and i: "0 \<le> iI" "iI < S"
    and start: "laneStart r' (nat kI) \<le> nat iI"
    and kind: "(r' = r \<and> nat kI < s) \<or> (r' = r \<and> nat kI = s \<and> nat lam = l \<and> nat iI < index)
               \<or> (r' + 1 = r \<and> s < nat kI)"
  shows "\<exists>y\<in>set pre. step_offset y = L * lam + (kI * S + iI) \<and> earlier_kind r s l index y"
proof (intro bexI conjI)
  show "step_at L S r' (nat kI) (nat lam) (nat iI) \<in> set pre"
  proof (rule P)
    show "nat kI < 4" using k by simp
    show "nat lam < nat p" using lam by simp
    show "laneStart r' (nat kI) \<le> nat iI" by (rule start)
    show "nat iI < nat S" using i by simp
    show "r' < r \<or> (r' = r \<and> (nat kI < s \<or> (nat kI = s \<and> (nat lam < l \<or> (nat lam = l \<and> nat iI < index)))))"
      using kind by auto
  qed
  show "step_offset (step_at L S r' (nat kI) (nat lam) (nat iI)) = L * lam + (kI * S + iI)"
    unfolding step_at_offset [OF start] using lam(1) k(1) i(1) by simp
  show "earlier_kind r s l index (step_at L S r' (nat kI) (nat lam) (nat iI))"
    unfolding earlier_kind_step_at by (rule kind)
qed

lemma segment_of:
  fixes S pos :: int
  assumes "2 \<le> S" "0 \<le> pos" "pos < 4 * S"
  shows "0 \<le> pos div S" "pos div S < 4" "0 \<le> pos mod S" "pos mod S < S"
    "pos = (pos div S) * S + pos mod S"
    "\<And>c. pos < c * S \<Longrightarrow> pos div S < c"
    "\<And>c. c * S \<le> pos \<Longrightarrow> c \<le> pos div S"
proof -
  have S: "0 < S" using assms(1) by simp
  show "0 \<le> pos div S" using assms(2) S by (simp add: pos_imp_zdiv_nonneg_iff)
  show "pos div S < 4" by (rule div_less_int [OF S]) (use assms(3) in simp)
  show "0 \<le> pos mod S" "pos mod S < S" using S by simp_all
  show "pos = (pos div S) * S + pos mod S" by simp
  show "pos div S < c" if "pos < c * S" for c using S that by (rule div_less_int)
  show "c \<le> pos div S" if "c * S \<le> pos" for c
  proof -
    have "(c * S) div S \<le> pos div S" using that S by (rule zdiv_mono1)
    then show ?thesis using S by simp
  qed
qed

text \<open>
  Claim C3. Take a valid geometry (\<open>p \<ge> 1\<close>, \<open>m \<ge> 8p\<close>, \<open>m' * 256\<close> below \<open>2^32\<close>, as the
  memory check of \<open>argon2Init\<close> leaves it), any step \<open>(r, s, l, index)\<close> of the loops with
  the \<open>offset\<close> and \<open>prev\<close> it passes to \<open>processBlock\<close>, and any pseudo-random pair. The
  reference block \<open>laneLen * refLane + refPos\<close> is not the previous block \<open>processBlock\<close>
  uses, which is the block before \<open>offset\<close> in its lane, cyclically. It is a block of the
  matrix, and it was written before: by \<open>argon2Init\<close>, or by a step that stands before
  this one in the traversal and lies in an earlier segment of this pass, earlier in this
  segment of this lane, or in a later segment of the pass before.
\<close>

theorem reference_block_written:
  assumes "1 \<le> p" "8 * p \<le> m" "geometry p m = (mP, laneLen, segmentLen)" "mP * 256 < 2 ^ 32"
    and "traversal t p laneLen segmentLen = pre @ (r, s, l, index, offset, prev) # post"
    and "0 \<le> randH"
  shows "refBlock (int l) (int r) (int s) (int index) laneLen segmentLen p randL randH
           \<noteq> prevBlock offset laneLen prev
       \<and> prevBlock offset laneLen prev
           = laneLen * int l + (int s * segmentLen + int index - 1) mod laneLen
       \<and> 0 \<le> refBlock (int l) (int r) (int s) (int index) laneLen segmentLen p randL randH
       \<and> refBlock (int l) (int r) (int s) (int index) laneLen segmentLen p randL randH < mP
       \<and> (refBlock (int l) (int r) (int s) (int index) laneLen segmentLen p randL randH
             \<in> seeded p laneLen
          \<or> (\<exists>y\<in>set pre.
                step_offset y
                  = refBlock (int l) (int r) (int s) (int index) laneLen segmentLen p randL randH
                \<and> earlier_kind r s l index y))"
proof -
  note g = geometry_valid [OF assms(1,2,3)]
  have L0: "0 < laneLen" using g(1,2) by simp
  have "1 * laneLen \<le> p * laneLen" by (rule mult_right_mono) (use assms(1) L0 in simp_all)
  then have "laneLen \<le> mP" unfolding g(3) by simp
  moreover have "mP < 16777216" using assms(4) by simp
  ultimately have Lb: "laneLen < 0x80000000" by linarith
  obtain r0 s0 l0 i0 where
    x0: "(r, s, l, index, offset, prev) = step_at laneLen segmentLen r0 s0 l0 i0"
    and b0: "r0 < nat t" "s0 < 4" "l0 < nat p" "laneStart r0 s0 \<le> i0" "i0 < nat segmentLen"
    and P0: "\<And>r' s' l' i'. s' < 4 \<Longrightarrow> l' < nat p \<Longrightarrow> laneStart r' s' \<le> i' \<Longrightarrow> i' < nat segmentLen \<Longrightarrow>
       r' < r0 \<or> (r' = r0 \<and> (s' < s0 \<or> (s' = s0 \<and> (l' < l0 \<or> (l' = l0 \<and> i' < i0))))) \<Longrightarrow>
       step_at laneLen segmentLen r' s' l' i' \<in> set pre"
    by (rule traversal_prefix [OF assms(5)], rule that)
  note c = step_at_coords [OF x0]
  note x = x0 [unfolded c] and b = b0 [unfolded c] and P = P0 [unfolded c]
  have sI: "int s = 0 \<or> int s = 1 \<or> int s = 2 \<or> int s = 3" using b(2) by auto
  have iI: "0 \<le> int index" "int index < segmentLen" using b(5) by simp_all
  have first: "int r = 0 \<and> int s = 0 \<longrightarrow> 2 \<le> int index"
    using b(4) unfolding laneStart_def by auto
  define lam where "lam = (if int r = 0 \<and> int s = 0 then int l else js_rem randH p)"
  have "0 \<le> randH mod p" "randH mod p < p" using assms(1) by simp_all
  moreover have "js_rem randH p = randH mod p"
    using js_rem_nonneg [OF assms(6), of p] assms(1) by simp
  ultimately have lam: "0 \<le> lam" "lam < p" unfolding lam_def using b(3) by auto
  define same where "same = (lam = int l)"
  have same0: "int r = 0 \<Longrightarrow> int s = 0 \<Longrightarrow> same" unfolding same_def lam_def by simp
  define pos where "pos = indexAlpha (int r) (int s) laneLen segmentLen (int index) randL same"
  have ref: "refBlock (int l) (int r) (int s) (int index) laneLen segmentLen p randL randH
              = laneLen * lam + pos"
    unfolding refBlock_def Let_def lam_def [symmetric] same_def [symmetric] pos_def ..
  note w = indexAlpha_window [OF g(1,2) Lb sI iI first, where same = same and randL = randL,
      folded pos_def]
  note pv = step_at_prev [OF g(1,2) b(2,4,5) x]
  define pp where "pp = (if int s = 0 \<and> int index = 0 then laneLen - 1
                         else int s * segmentLen + int index - 1)"
  have pp: "0 \<le> pp" "pp < laneLen"
    unfolding pp_def using sI iI g(1,2) by (elim disjE; auto)+
  have ppm: "(int s * segmentLen + int index - 1) mod laneLen = pp"
  proof (cases "int s = 0 \<and> int index = 0")
    case True
    have "(- 1) mod laneLen = laneLen - 1" using L0 by (simp add: zmod_minus1)
    then show ?thesis unfolding pp_def using True by simp
  next
    case False
    then have e: "pp = int s * segmentLen + int index - 1" unfolding pp_def by auto
    show ?thesis using pp unfolding e by (rule mod_pos_pos_trivial)
  qed
  have a: "laneLen * lam + pos \<noteq> laneLen * int l + pp"
  proof
    assume "laneLen * lam + pos = laneLen * int l + pp"
    from lane_separate [OF w(1,2) pp this] have e: "lam = int l" "pos = pp" by simp_all
    then have sm: same unfolding same_def by simp
    show False
    proof (cases "int r = 0")
      case True
      from w(3) [OF True] sm have "pos + 2 \<le> int s * segmentLen + int index" by simp
      moreover have "pp = int s * segmentLen + int index - 1"
        unfolding pp_def using first True by auto
      ultimately show False using e(2) by simp
    next
      case False
      from w(6) [OF False sm] e(2) show False unfolding pp_def by simp
    qed
  qed
  have c1: "0 \<le> laneLen * lam + pos"
  proof -
    have "0 \<le> laneLen * lam" using L0 lam(1) by simp
    then show ?thesis using w(1) by linarith
  qed
  have c2: "laneLen * lam + pos < mP"
  proof -
    have "lam + 1 \<le> p" using lam(2) by simp
    then have "laneLen * (lam + 1) \<le> laneLen * p" by (rule mult_left_mono) (use L0 in simp)
    moreover have "laneLen * lam + pos < laneLen * (lam + 1)" using w(2) by (simp add: algebra_simps)
    ultimately show ?thesis unfolding g(3) by (simp add: mult.commute)
  qed
  note seg = segment_of [OF g(1) w(1) w(2) [unfolded g(2)]]
  define kI where "kI = pos div segmentLen"
  define jI where "jI = pos mod segmentLen"
  note sg = seg [folded kI_def jI_def]
  have posd: "laneLen * lam + pos = laneLen * lam + (kI * segmentLen + jI)" using sg(5) by simp
  have nk: "nat kI < s" if "kI < int s" using that sg(1) by (simp add: nat_less_iff)
  have kn: "s < nat kI" if "int s + 1 \<le> kI" using that by (simp add: zless_nat_eq_int_zless)
  have d: "laneLen * lam + pos \<in> seeded p laneLen
          \<or> (\<exists>y\<in>set pre. step_offset y = laneLen * lam + pos \<and> earlier_kind r s l index y)"
  proof (cases "r = 0")
    case True
    then have r0: "int r = 0" by simp
    show ?thesis
    proof (cases "pos < 2")
      case True
      then have "pos = 0 \<or> pos = 1" using w(1) by linarith
      moreover have "nat lam \<in> {0..<nat p}" using lam by simp
      ultimately have "laneLen * lam + pos \<in> seeded p laneLen"
        unfolding seeded_def using lam(1) by (intro UN_I [of "nat lam"]) auto
      then show ?thesis ..
    next
      case False
      have st: "laneStart 0 (nat kI) \<le> nat jI"
      proof (cases "kI = 0")
        case True
        then have "jI = pos" using sg(5) by simp
        then show ?thesis using False True unfolding laneStart_def by simp
      next
        case False
        then show ?thesis using sg(1) unfolding laneStart_def by simp
      qed
      have kind: "(0 = r \<and> nat kI < s) \<or> (0 = r \<and> nat kI = s \<and> nat lam = l \<and> nat jI < index)
               \<or> (0 + 1 = r \<and> s < nat kI)"
      proof (cases same)
        case True
        from w(3) [OF r0] True have u: "pos + 2 \<le> int s * segmentLen + int index" by simp
        then have "pos < (int s + 1) * segmentLen" using iI(2) by (simp add: algebra_simps)
        then have "kI < int s + 1" unfolding kI_def by (rule seg(6))
        then consider "kI < int s" | "kI = int s" by linarith
        then show ?thesis
        proof cases
          case 1
          then show ?thesis using \<open>r = 0\<close> nk by simp
        next
          case 2
          then have "jI + 2 \<le> int index" using u sg(5) by simp
          then have "nat jI < index" using sg(3) by simp
          moreover have "nat lam = l" using True unfolding same_def by simp
          ultimately show ?thesis using \<open>r = 0\<close> 2 by simp
        qed
      next
        case False
        then have "int s \<noteq> 0" using same0 [OF r0] by blast
        from w(4) [OF r0 this False] have "kI < int s" unfolding kI_def by (rule seg(6))
        then show ?thesis using \<open>r = 0\<close> nk by simp
      qed
      from earlier_step [OF P lam sg(1,2,3,4) st kind]
      show ?thesis unfolding posd by (rule disjI2)
    qed
  next
    case False
    then have rn: "int r \<noteq> 0" by simp
    have ls: "laneStart r k \<le> j" for k j using False unfolding laneStart_def by simp
    consider (before) "pos < int s * segmentLen" | (after) "(int s + 1) * segmentLen \<le> pos"
      | (here) "int s * segmentLen \<le> pos" "pos < (int s + 1) * segmentLen"
          "same" "pos + 2 \<le> int s * segmentLen + int index"
      using w(5) [OF rn] by linarith
    then show ?thesis
    proof cases
      case before
      then have "kI < int s" unfolding kI_def by (rule seg(6))
      then have kind: "(r = r \<and> nat kI < s) \<or> (r = r \<and> nat kI = s \<and> nat lam = l \<and> nat jI < index)
               \<or> (r + 1 = r \<and> s < nat kI)"
        using nk by simp
      from earlier_step [OF P lam sg(1,2,3,4) ls kind]
      show ?thesis unfolding posd by (rule disjI2)
    next
      case after
      then have k: "int s + 1 \<le> kI" unfolding kI_def by (rule seg(7))
      then have kind: "(r - 1 = r \<and> nat kI < s) \<or> (r - 1 = r \<and> nat kI = s \<and> nat lam = l \<and> nat jI < index)
               \<or> (r - 1 + 1 = r \<and> s < nat kI)"
        using False kn by simp
      have "nat kI \<noteq> 0" using k by simp
      then have st: "laneStart (r - 1) (nat kI) \<le> nat jI" unfolding laneStart_def by simp
      from earlier_step [OF P lam sg(1,2,3,4) st kind]
      show ?thesis unfolding posd by (rule disjI2)
    next
      case here
      have "kI < int s + 1" unfolding kI_def using here(2) by (rule seg(6))
      moreover have "int s \<le> kI" unfolding kI_def using here(1) by (rule seg(7))
      ultimately have k: "kI = int s" by simp
      then have "jI + 2 \<le> int index" using here(4) sg(5) by simp
      then have "nat jI < index" using sg(3) by simp
      moreover have "nat lam = l" using here(3) unfolding same_def by simp
      ultimately have kind: "(r = r \<and> nat kI < s) \<or> (r = r \<and> nat kI = s \<and> nat lam = l \<and> nat jI < index)
               \<or> (r + 1 = r \<and> s < nat kI)"
        using k by simp
      from earlier_step [OF P lam sg(1,2,3,4) ls kind]
      show ?thesis unfolding posd by (rule disjI2)
    qed
  qed
  have pvb: "prevBlock offset laneLen prev = laneLen * int l + pp"
    using pv(2) unfolding pp_def .
  show ?thesis
    unfolding ref pvb ppm using a c1 c2 d by (simp only: simp_thms)
qed

theorem reference_block_written_witness:
  "(1::int) \<le> 1 \<and> (8::int) * 1 \<le> 8 \<and> geometry 1 8 = (8, 8, 2) \<and> (8::int) * 256 < 2 ^ 32
   \<and> traversal 1 1 8 2
       = [(0, 1, 0, 0, 2, 1), (0, 1, 0, 1, 3, 2)] @ (0, 2, 0, 0, 4, 3)
           # [(0, 2, 0, 1, 5, 4), (0, 3, 0, 0, 6, 5), (0, 3, 0, 1, 7, 6)]
   \<and> refBlock 0 0 2 0 8 2 1 0 0 \<noteq> prevBlock 4 8 3
   \<and> prevBlock 4 8 3 = 8 * 0 + (2 * 2 + 0 - 1) mod 8
   \<and> 0 \<le> refBlock 0 0 2 0 8 2 1 0 0
   \<and> refBlock 0 0 2 0 8 2 1 0 0 < 8
   \<and> (refBlock 0 0 2 0 8 2 1 0 0 \<in> seeded 1 8
      \<or> (\<exists>y\<in>set [(0, 1, 0, 0, 2, 1), (0, 1, 0, 1, 3, 2)].
            step_offset y = refBlock 0 0 2 0 8 2 1 0 0 \<and> earlier_kind 0 2 0 0 y))"
  using reference_block_written [where p = 1 and m = 8 and mP = 8 and laneLen = 8
      and segmentLen = 2 and t = 1 and pre = "[(0, 1, 0, 0, 2, 1), (0, 1, 0, 1, 3, 2)]"
      and r = 0 and s = 2 and l = 0 and index = 0 and offset = 4 and prev = 3
      and post = "[(0, 2, 0, 1, 5, 4), (0, 3, 0, 0, 6, 5), (0, 3, 0, 1, 7, 6)]"
      and randL = 0 and randH = 0]
    geometry_min traversal_min
  by simp

section \<open>The memory budget\<close>

lemma Hp_long_U32:
  assumes "64 < dkLen"
  obtains ws where "Hp hb A dkLen = U32 ws" "length ws = dkLen div 4"
proof -
  have "\<exists>ws. Hp hb A dkLen = U32 ws"
    unfolding Hp_def Let_def case_prod_beta using assms by simp
  then obtain ws where w: "Hp hb A dkLen = U32 ws" ..
  have "length (u8_view (Hp hb A dkLen)) = 4 * (dkLen div 4)"
    using assms by (rule Hp_long_length)
  then have "length ws = dkLen div 4" unfolding w by (simp add: u8_view_def length_u8)
  with w show thesis by (rule that)
qed

lemma length_set_typed_Hp:
  assumes "n + 256 \<le> length Bm"
  shows "length (set_typed Bm (Hp hb A 1024) n) = length Bm"
proof -
  obtain ws where w: "Hp hb A 1024 = U32 ws" "length ws = 1024 div 4"
    by (rule Hp_long_U32 [of 1024 hb A]) simp
  show ?thesis
    unfolding set_typed_def w(1) using assms w(2) by (simp add: length_set_at)
qed

lemma length_fst_firstBlocks:
  assumes "0 \<le> laneLen" "nat (256 * laneLen * int l) + 512 \<le> length (fst BH)"
  shows "length (fst (firstBlocks hb laneLen l BH)) = length (fst BH)"
proof -
  have i: "0 \<le> 256 * laneLen * int l" using assms(1) by simp
  have n: "nat (256 * laneLen * int l + 256) = nat (256 * laneLen * int l) + 256"
    using i by (simp add: nat_add_distrib)
  have 1: "length (set_typed (fst BH) X (nat (256 * laneLen * int l))) = length (fst BH)"
    if "X = Hp hb A 1024" for X A
    unfolding that by (rule length_set_typed_Hp) (use assms(2) in simp)
  have 2: "length (set_typed Bm (Hp hb A 1024) (nat (256 * laneLen * int l + 256))) = length (fst BH)"
    if "length Bm = length (fst BH)" for Bm A
    unfolding n that [symmetric] by (rule length_set_typed_Hp) (use assms(2) that in simp)
  show ?thesis
    unfolding firstBlocks_def Let_def case_prod_beta fst_conv
    by (rule 2, rule 1, rule refl)
qed

lemma length_fst_fold_firstBlocks:
  assumes "0 \<le> laneLen" "\<forall>l\<in>set ls. nat (256 * laneLen * int l) + 512 \<le> length (fst BH)"
  shows "length (fst (fold (firstBlocks hb laneLen) ls BH)) = length (fst BH)"
  using assms(2)
proof (induction ls arbitrary: BH)
  case Nil
  show ?case by simp
next
  case (Cons l ls)
  have a: "length (fst (firstBlocks hb laneLen l BH)) = length (fst BH)"
    by (rule length_fst_firstBlocks [OF assms(1)]) (use Cons.prems in simp)
  have "length (fst (fold (firstBlocks hb laneLen) ls (firstBlocks hb laneLen l BH)))
          = length (fst (firstBlocks hb laneLen l BH))"
    by (rule Cons.IH) (use Cons.prems a in simp)
  then show ?case using a by simp
qed

lemma first_blocks_fit:
  assumes "1 \<le> p" "8 * p \<le> m" "l < nat p"
  shows "nat (256 * fst (snd (geometry p m)) * int l) + 512 \<le> nat (fst (geometry p m) * 256)"
    and "0 \<le> fst (snd (geometry p m))"
proof -
  obtain mP L S where g: "geometry p m = (mP, L, S)" by (cases "geometry p m") auto
  note v = geometry_valid [OF assms(1,2) g]
  have L: "8 \<le> L" using v(1,2) by simp
  have "int l + 1 \<le> p" using assms(3) by simp
  then have "L * (int l + 1) \<le> L * p" by (rule mult_left_mono) (use L in simp)
  then have "L * int l + L \<le> p * L" by (simp add: algebra_simps)
  then have "256 * (L * int l) + 256 * 8 \<le> 256 * (p * L)" using L by simp
  then have "256 * L * int l + 512 \<le> mP * 256" unfolding v(3) by simp
  moreover have "0 \<le> 256 * L * int l" using L by simp
  ultimately show "nat (256 * fst (snd (geometry p m)) * int l) + 512 \<le> nat (fst (geometry p m) * 256)"
    unfolding g fst_conv snd_conv by linarith
  show "0 \<le> fst (snd (geometry p m))" unfolding g fst_conv snd_conv using L by simp
qed

lemma argon2Init_matrix:
  assumes "isUint32 (int (length password))"
      and "isUint32 (int (length salt))" "8 \<le> length salt"
      and "initOpts opts = Inr mg"
      and "argon2Init hb password salt ty opts hp = Inr (ini, hp', g)"
  shows "length (B hp') = nat (fst (geometry (mg_p mg) (mg_m mg)) * 256)"
proof -
  note e = assms(5) [unfolded argon2Init_valid [OF assms(1-4)]]
  have n: "\<not> (\<not> isUint32 (mg_maxmem mg) \<or> mg_maxmem mg < fst (geometry (mg_p mg) (mg_m mg)) * 256)"
    using e by (auto split: if_splits)
  note e' = e [unfolded if_not_P [OF n] sum.inject prod.inject]
  from e' have hp': "B hp' = fst (fold (firstBlocks hb (fst (snd (geometry (mg_p mg) (mg_m mg)))))
                   [0..<nat (mg_p mg)]
                   (replicate (nat (fst (geometry (mg_p mg) (mg_m mg)) * 256)) 0,
                    u32 (blake2b hb 64 (H0_input (mg_p mg) (mg_dkLen mg) (mg_m mg) (mg_t mg)
                       (mg_version mg) ty password salt (toBytesOptional (mg_key mg))
                       (toBytesOptional (mg_personalization mg)))) @ [0, 0]))"
    by auto
  note f = first_blocks_fit [OF initOpts_Inr(4,7) [OF assms(4)]]
  have "0 < nat (mg_p mg)" using initOpts_Inr(4) [OF assms(4)] by simp
  note f0 = f(2) [OF this]
  show ?thesis
    unfolding hp'
    by (subst length_fst_fold_firstBlocks) (use f(1) f0 in simp_all)
qed

lemma argon2Init_error_matrix:
  assumes "argon2Init hb password salt ty opts hp = Inl (e, hp')"
  shows "B hp' = B hp"
  using assms unfolding argon2Init_def Let_def case_prod_beta
  by (auto split: if_splits sum.splits)

text \<open>
  Claim C4, amended. For otherwise valid parameters the call fails with the memory-budget
  error exactly when \<open>maxmem\<close> (default \<open>2^32 - 1\<close>) is not an unsigned 32-bit integer or
  \<open>m' * 256\<close>, the length of \<open>B\<close> in 32-bit words, exceeds \<open>maxmem\<close>. The error is raised by
  \<open>argon2Init\<close> before \<open>B\<close> is allocated: the heap it leaves has the \<open>B\<close> it was called with
  (none, for a call of \<open>argon2\<close>), whereas a successful \<open>argon2Init\<close> leaves a \<open>B\<close> of
  \<open>m' * 256\<close> words. Otherwise the call returns bytes.
\<close>

theorem memory_budget:
  assumes "isUint32 (int (length password))"
      and "isUint32 (int (length salt))" "8 \<le> length salt"
      and "initOpts opts = Inr mg"
  shows "mg_maxmem mg = dflt (2 ^ 32 - 1) (opt_maxmem opts)
     \<and> ((\<exists>hp'. argon2Init hb password salt ty opts hp = Inl (ErrMaxmem, hp'))
          = (\<not> isUint32 (mg_maxmem mg)
              \<or> mg_maxmem mg < 4 * mg_p mg * (mg_m mg div (4 * mg_p mg)) * 256))
     \<and> (\<forall>hp'. argon2Init hb password salt ty opts hp = Inl (ErrMaxmem, hp') \<longrightarrow> B hp' = B hp)
     \<and> (\<forall>ini hp' g. argon2Init hb password salt ty opts hp = Inr (ini, hp', g)
          \<longrightarrow> length (B hp') = nat (4 * mg_p mg * (mg_m mg div (4 * mg_p mg)) * 256))
     \<and> B heap0 = []
     \<and> ((argon2 hb ty password salt opts = Inl ErrMaxmem)
          = (\<not> isUint32 (mg_maxmem mg)
              \<or> mg_maxmem mg < 4 * mg_p mg * (mg_m mg div (4 * mg_p mg)) * 256))
     \<and> ((\<exists>res. argon2 hb ty password salt opts = Inr res)
          = (isUint32 (mg_maxmem mg)
              \<and> 4 * mg_p mg * (mg_m mg div (4 * mg_p mg)) * 256 \<le> mg_maxmem mg))"
proof -
  note v = argon2Init_valid [OF assms, of hb ty, unfolded geometry_fst]
  have 1: "mg_maxmem mg = dflt (2 ^ 32 - 1) (opt_maxmem opts)"
    by (subst initOpts_Inr(1) [OF assms(4)]) simp
  define over where "over = (\<not> isUint32 (mg_maxmem mg)
              \<or> mg_maxmem mg < 4 * mg_p mg * (mg_m mg div (4 * mg_p mg)) * 256)"
  have a: "over \<Longrightarrow> \<exists>hp'. argon2Init hb password salt ty opts h = Inl (ErrMaxmem, hp')" for h
    unfolding v over_def by (simp only: if_True) blast
  have b: "\<not> over \<Longrightarrow> \<exists>x. argon2Init hb password salt ty opts h = Inr x" for h
    unfolding v over_def by (simp only: if_False) blast
  have 2: "(\<exists>hp'. argon2Init hb password salt ty opts h = Inl (ErrMaxmem, hp')) = over" for h
    using a [of h] b [of h] by (cases over) auto
  have 3: "(\<exists>x. argon2Init hb password salt ty opts h = Inr x) = (\<not> over)" for h
    using a [of h] b [of h] by (cases over) auto
  have 4: "(\<not> over) = (isUint32 (mg_maxmem mg)
              \<and> 4 * mg_p mg * (mg_m mg div (4 * mg_p mg)) * 256 \<le> mg_maxmem mg)"
    unfolding over_def by (simp only: de_Morgan_disj not_not not_less)
  have 5: "\<forall>hp'. argon2Init hb password salt ty opts hp = Inl (ErrMaxmem, hp') \<longrightarrow> B hp' = B hp"
    by (intro allI impI) (rule argon2Init_error_matrix)
  have 6: "\<forall>ini hp' g. argon2Init hb password salt ty opts hp = Inr (ini, hp', g)
          \<longrightarrow> length (B hp') = nat (4 * mg_p mg * (mg_m mg div (4 * mg_p mg)) * 256)"
    by (intro allI impI) (rule argon2Init_matrix [OF assms, unfolded geometry_fst])
  have 7: "B heap0 = []" by (simp add: heap0_def)
  show ?thesis
    unfolding argon2_Inl_iff argon2_Inr_iff 2 3 4 [symmetric]
    using 1 5 6 7 unfolding over_def by blast
qed

theorem memory_budget_witness:
  "isUint32 (int (length ([] :: Uint8Array))) \<and> isUint32 (int (length salt8)) \<and> 8 \<le> length salt8
   \<and> initOpts (min_opts\<lparr> opt_maxmem := Some 2047 \<rparr>)
        = Inr \<lparr> mg_t = 1, mg_m = 8, mg_p = 1, mg_version = 0x13, mg_key = None,
                 mg_personalization = None, mg_dkLen = 32, mg_asyncTick = 10,
                 mg_maxmem = 2047, mg_onProgress = None \<rparr>
   \<and> argon2 zero_hash Argon2id [] salt8 (min_opts\<lparr> opt_maxmem := Some 2047 \<rparr>) = Inl ErrMaxmem
   \<and> (\<exists>hp'. argon2Init zero_hash [] salt8 Argon2id (min_opts\<lparr> opt_maxmem := Some 2047 \<rparr>) heap0
               = Inl (ErrMaxmem, hp')
            \<and> B hp' = [])"
proof -
  have a: "isUint32 (int (length ([] :: Uint8Array)))" by (simp add: isUint32_small)
  have b: "isUint32 (int (length salt8))" "8 \<le> length salt8"
    by (simp_all add: salt8_length isUint32_small)
  have c: "initOpts (min_opts\<lparr> opt_maxmem := Some 2047 \<rparr>)
        = Inr \<lparr> mg_t = 1, mg_m = 8, mg_p = 1, mg_version = 0x13, mg_key = None,
                 mg_personalization = None, mg_dkLen = 32, mg_asyncTick = 10,
                 mg_maxmem = 2047, mg_onProgress = None \<rparr>"
    by (simp add: initOpts_def min_opts_def dflt_def isUint32_def maxUint32_def Let_def)
  note m = memory_budget [OF a b c, of zero_hash Argon2id heap0]
  have 1: "argon2 zero_hash Argon2id [] salt8 (min_opts\<lparr> opt_maxmem := Some 2047 \<rparr>) = Inl ErrMaxmem"
    using m by simp
  have "\<exists>hp'. argon2Init zero_hash [] salt8 Argon2id (min_opts\<lparr> opt_maxmem := Some 2047 \<rparr>) heap0
               = Inl (ErrMaxmem, hp')"
    using m by simp
  then obtain hp' where
    2: "argon2Init zero_hash [] salt8 Argon2id (min_opts\<lparr> opt_maxmem := Some 2047 \<rparr>) heap0
               = Inl (ErrMaxmem, hp')" ..
  have "B hp' = []" using m 2 by simp
  with 2 have 3: "\<exists>hp'. argon2Init zero_hash [] salt8 Argon2id
       (min_opts\<lparr> opt_maxmem := Some 2047 \<rparr>) heap0 = Inl (ErrMaxmem, hp') \<and> B hp' = []"
    by blast
  from a b c 1 3 show ?thesis by (simp only: simp_thms)
qed

text \<open>
  The claim as stated fails: with \<open>m' = 8\<close> blocks, \<open>m' * 1024 = 8192\<close> bytes exceed
  \<open>maxmem = 4096\<close>, and the call does not fail with the memory-budget error.
\<close>

theorem memory_budget_counterexample:
  "fst (geometry 1 8) * 1024 > 4096
   \<and> argon2 zero_hash Argon2id [] salt8 (min_opts\<lparr> opt_maxmem := Some 4096 \<rparr>) \<noteq> Inl ErrMaxmem"
proof -
  have a: "isUint32 (int (length ([] :: Uint8Array)))" by (simp add: isUint32_small)
  have b: "isUint32 (int (length salt8))" "8 \<le> length salt8"
    by (simp_all add: salt8_length isUint32_small)
  have c: "initOpts (min_opts\<lparr> opt_maxmem := Some 4096 \<rparr>)
        = Inr \<lparr> mg_t = 1, mg_m = 8, mg_p = 1, mg_version = 0x13, mg_key = None,
                 mg_personalization = None, mg_dkLen = 32, mg_asyncTick = 10,
                 mg_maxmem = 4096, mg_onProgress = None \<rparr>"
    by (simp add: initOpts_def min_opts_def dflt_def isUint32_def maxUint32_def Let_def)
  have u: "isUint32 4096" by (simp add: isUint32_def maxUint32_def)
  have "\<exists>x. argon2Init zero_hash [] salt8 Argon2id (min_opts\<lparr> opt_maxmem := Some 4096 \<rparr>) heap0
          = Inr x"
    unfolding argon2Init_valid [OF a b c]
    by (simp only: Merged.simps geometry_min fst_conv u) simp
  then have "\<not> (\<exists>hp'. argon2Init zero_hash [] salt8 Argon2id
       (min_opts\<lparr> opt_maxmem := Some 4096 \<rparr>) heap0 = Inl (ErrMaxmem, hp'))"
    by auto
  then show ?thesis unfolding argon2_Inl_iff by (simp add: geometry_min)
qed

end
